theory Spec2Isabelle
  imports Complex_Main
begin

section \<open>The Go rules engine (src/js/game/rules.js)\<close>

subsection \<open>Data model\<close>

text \<open>
  The cell constants of rules.js: \<open>EMPTY = 0\<close>, \<open>BLACK = 1\<close>, \<open>WHITE = 2\<close>.
\<close>

datatype stone = EMPTY | BLACK | WHITE

text \<open>
  A position \<open>{x, y}\<close>; the string key \<open>`${x},${y}`\<close> of the visited and liberty
  sets determines the pair and is modelled by the pair itself. A JavaScript \<open>Set\<close>
  keeps insertion order and drops duplicates: it is a list without repetitions,
  extended by \<open>setAdd\<close>.
\<close>

type_synonym pos = "int \<times> int"

type_synonym grid = "stone list list"

definition setAdd :: "'a \<Rightarrow> 'a list \<Rightarrow> 'a list" where
  "setAdd k ks = (if k \<in> set ks then ks else ks @ [k])"

text \<open>The rejection reasons (the string literals of rules.js).\<close>

datatype reason =
    OutOfRange      \<comment> \<open>isValidMove: out of the board's range\<close>
  | Occupied        \<comment> \<open>isValidMove: the point already holds a stone\<close>
  | KoViolation     \<comment> \<open>isValidMove: ko point\<close>
  | Suicide         \<comment> \<open>isValidMove: suicide is forbidden\<close>
  | NothingToUndo   \<comment> \<open>undoMove: no step to take back\<close>

text \<open>
  An entry of \<open>moveHistory\<close>: \<open>{x, y, player, captured}\<close> pushed by makeMove, or
  \<open>{x: -1, y: -1, player, isPass: true}\<close> pushed by pass.
\<close>

datatype move_entry = Placement int int stone nat | PassEntry stone

fun isPass :: "move_entry \<Rightarrow> bool" where
  "isPass (Placement x y p c) = False"
| "isPass (PassEntry p) = True"

text \<open>An entry of \<open>boardHistory\<close>, as saveBoardState builds it.\<close>

record snapshot =
  snap_board :: grid
  snap_currentPlayer :: stone
  snap_capturedBlack :: nat
  snap_capturedWhite :: nat
  snap_koPoint :: "pos option"
  snap_lastMove :: "(int \<times> int \<times> stone) option"

text \<open>The fields of a \<open>GoRules\<close> object.\<close>

record engine =
  sizeN :: nat
  board :: grid
  currentPlayer :: stone
  capturedBlack :: nat
  capturedWhite :: nat
  lastMove :: "(int \<times> int \<times> stone) option"
  koPoint :: "pos option"
  moveHistory :: "move_entry list"
  boardHistory :: "snapshot list"

text \<open>
  \<open>this.board[x][y]\<close> read and written. The engine reads and writes a cell only after
  \<open>isOnBoard\<close> has accepted the coordinates, so on a grid of \<open>size\<close> rows of \<open>size\<close>
  cells (\<open>wf_engine\<close> below) every access is in range.
\<close>

definition cellAt :: "grid \<Rightarrow> pos \<Rightarrow> stone" where
  "cellAt b p = b ! nat (fst p) ! nat (snd p)"

definition setCell :: "grid \<Rightarrow> pos \<Rightarrow> stone \<Rightarrow> grid" where
  "setCell b p v = b[nat (fst p) := (b ! nat (fst p))[nat (snd p) := v]]"

definition wf_grid :: "nat \<Rightarrow> grid \<Rightarrow> bool" where
  "wf_grid n b = (length b = n \<and> list_all (\<lambda>row. length row = n) b)"

definition wf_engine :: "engine \<Rightarrow> bool" where
  "wf_engine s = wf_grid (sizeN s) (board s)"

subsection \<open>init and saveBoardState\<close>

definition saveBoardState :: "engine \<Rightarrow> engine" where
  "saveBoardState s =
     s\<lparr>boardHistory := boardHistory s @
        [\<lparr>snap_board = board s,
          snap_currentPlayer = currentPlayer s,
          snap_capturedBlack = capturedBlack s,
          snap_capturedWhite = capturedWhite s,
          snap_koPoint = koPoint s,
          snap_lastMove = lastMove s\<rparr>]\<rparr>"

definition init :: "nat \<Rightarrow> engine" where
  "init n =
     saveBoardState
       \<lparr>sizeN = n,
        board = replicate n (replicate n EMPTY),
        currentPlayer = BLACK,
        capturedBlack = 0,
        capturedWhite = 0,
        lastMove = None,
        koPoint = None,
        moveHistory = [],
        boardHistory = []\<rparr>"

subsection \<open>getOpponent, isOnBoard, getNeighbors\<close>

definition getOpponent :: "stone \<Rightarrow> stone" where
  "getOpponent player = (if player = BLACK then WHITE else BLACK)"

definition isOnBoard :: "nat \<Rightarrow> int \<Rightarrow> int \<Rightarrow> bool" where
  "isOnBoard n x y = (x \<ge> 0 \<and> x < int n \<and> y \<ge> 0 \<and> y < int n)"

definition getNeighbors :: "nat \<Rightarrow> pos \<Rightarrow> pos list" where
  "getNeighbors n p =
     filter (\<lambda>q. isOnBoard n (fst q) (snd q))
       [(fst p - 1, snd p), (fst p + 1, snd p), (fst p, snd p - 1), (fst p, snd p + 1)]"

subsection \<open>getGroup: breadth-first search\<close>

text \<open>
  The inner \<open>for (const neighbor of neighbors)\<close> loop of getGroup, on the triple
  (liberties, visited, queue).
\<close>

fun scanNeighbors ::
  "grid \<Rightarrow> stone \<Rightarrow> pos list \<Rightarrow> pos list \<times> pos list \<times> pos list
     \<Rightarrow> pos list \<times> pos list \<times> pos list" where
  "scanNeighbors b color [] st = st"
| "scanNeighbors b color (nb # nbs) (libs, visited, queue) =
     (if cellAt b nb = EMPTY then
        scanNeighbors b color nbs (setAdd nb libs, visited, queue)
      else if cellAt b nb = color \<and> nb \<notin> set visited then
        scanNeighbors b color nbs (libs, visited @ [nb], queue @ [nb])
      else scanNeighbors b color nbs (libs, visited, queue))"

definition onBoardSet :: "nat \<Rightarrow> pos set" where
  "onBoardSet n = {0 ..< int n} \<times> {0 ..< int n}"

lemma finite_onBoardSet: "finite (onBoardSet n)"
  by (simp add: onBoardSet_def)

lemma getNeighbors_onBoard: "set (getNeighbors n p) \<subseteq> onBoardSet n"
  by (auto simp: getNeighbors_def onBoardSet_def isOnBoard_def)

lemma scanNeighbors_shape:
  "scanNeighbors b color nbs (libs, visited, queue) = (libs', visited', queue') \<Longrightarrow>
   \<exists>new. visited' = visited @ new \<and> queue' = queue @ new \<and> distinct new \<and>
         set new \<inter> set visited = {} \<and> set new \<subseteq> set nbs"
proof (induction nbs arbitrary: libs visited queue)
  case Nil
  then show ?case by simp
next
  case (Cons nb nbs)
  show ?case
  proof (cases "cellAt b nb = EMPTY")
    case True
    with Cons.prems have
      "scanNeighbors b color nbs (setAdd nb libs, visited, queue) = (libs', visited', queue')"
      by simp
    from Cons.IH [OF this] show ?thesis by auto
  next
    case False
    show ?thesis
    proof (cases "cellAt b nb = color \<and> nb \<notin> set visited")
      case True
      with False Cons.prems have
        "scanNeighbors b color nbs (libs, visited @ [nb], queue @ [nb]) = (libs', visited', queue')"
        by simp
      from Cons.IH [OF this] obtain new where new:
        "visited' = (visited @ [nb]) @ new" "queue' = (queue @ [nb]) @ new" "distinct new"
        "set new \<inter> set (visited @ [nb]) = {}" "set new \<subseteq> set nbs"
        by blast
      have "visited' = visited @ (nb # new)" "queue' = queue @ (nb # new)"
        using new by simp_all
      moreover have "distinct (nb # new)" using new by auto
      moreover have "set (nb # new) \<inter> set visited = {}" using new True by auto
      moreover have "set (nb # new) \<subseteq> set (nb # nbs)" using new by auto
      ultimately show ?thesis by blast
    next
      case F2: False
      with False Cons.prems have
        "scanNeighbors b color nbs (libs, visited, queue) = (libs', visited', queue')"
        by (simp split: if_splits)
      from Cons.IH [OF this] show ?thesis by auto
    qed
  qed
qed

lemma unvisited_decreases:
  assumes "distinct new" "set new \<inter> set visited = {}" "set new \<subseteq> onBoardSet n"
  shows "card (onBoardSet n - set (visited @ new)) + length new = card (onBoardSet n - set visited)"
proof -
  have sub: "set new \<subseteq> onBoardSet n - set visited" using assms by auto
  have "onBoardSet n - set (visited @ new) = (onBoardSet n - set visited) - set new"
    by auto
  then have "card (onBoardSet n - set (visited @ new)) = card (onBoardSet n - set visited) - card (set new)"
    using sub by (simp add: card_Diff_subset)
  moreover have "card (set new) \<le> card (onBoardSet n - set visited)"
    using sub finite_onBoardSet by (simp add: card_mono)
  moreover have "card (set new) = length new"
    using assms(1) by (simp add: distinct_card)
  ultimately show ?thesis by simp
qed

lemma groupLoop_step_decreases:
  assumes "(libs', visited', queue') =
      scanNeighbors b color (getNeighbors n current) (libs, visited, queue)"
  shows "2 * card (onBoardSet n - set visited') + length queue'
         < Suc (2 * card (onBoardSet n - set visited) + length queue)"
proof -
  from assms have eq: "scanNeighbors b color (getNeighbors n current) (libs, visited, queue) =
      (libs', visited', queue')"
    by simp
  from scanNeighbors_shape [OF eq] obtain new where new:
    "visited' = visited @ new" "queue' = queue @ new" "distinct new"
    "set new \<inter> set visited = {}" "set new \<subseteq> set (getNeighbors n current)"
    by blast
  have "set new \<subseteq> onBoardSet n"
    using new(5) getNeighbors_onBoard by blast
  from unvisited_decreases [OF new(3) new(4) this]
  have "card (onBoardSet n - set visited') + length new = card (onBoardSet n - set visited)"
    using new(1) by simp
  then show ?thesis
    using new(2) by simp
qed

text \<open>
  The \<open>while (queue.length > 0)\<close> loop of getGroup: \<open>queue.shift()\<close> takes the head,
  \<open>stones.push(current)\<close> appends it.
\<close>

function groupLoop ::
  "nat \<Rightarrow> grid \<Rightarrow> stone \<Rightarrow> pos list \<Rightarrow> pos list \<Rightarrow> pos list \<Rightarrow> pos list
     \<Rightarrow> pos list \<times> pos list" where
  "groupLoop n b color [] visited stones libs = (stones, libs)"
| "groupLoop n b color (current # queue) visited stones libs =
     (case scanNeighbors b color (getNeighbors n current) (libs, visited, queue) of
        (libs', visited', queue') \<Rightarrow>
          groupLoop n b color queue' visited' (stones @ [current]) libs')"
  by pat_completeness auto
termination
  by (relation "measure (\<lambda>(n, b, color, queue, visited, stones, libs).
          2 * card (onBoardSet n - set visited) + length queue)")
     (auto dest: groupLoop_step_decreases)

definition getGroup :: "engine \<Rightarrow> int \<Rightarrow> int \<Rightarrow> pos list \<times> pos list" where
  "getGroup s x y =
     (let color = cellAt (board s) (x, y) in
      if color = EMPTY then ([], [])
      else groupLoop (sizeN s) (board s) color [(x, y)] [(x, y)] [] [])"

definition countLiberties :: "engine \<Rightarrow> int \<Rightarrow> int \<Rightarrow> nat" where
  "countLiberties s x y = length (snd (getGroup s x y))"

subsection \<open>removeGroup, getCapturedStones, hasLibertyAfterMove, isKoPoint\<close>

text \<open>
  removeGroup reads the colour at \<open>stones[0]\<close> first, empties every listed cell, and
  adds \<open>stones.length\<close> to the tally of that colour. makeMove calls it only with a
  non-empty list.
\<close>

definition removeGroup :: "engine \<Rightarrow> pos list \<Rightarrow> engine \<times> nat" where
  "removeGroup s stones =
     (let color = cellAt (board s) (hd stones);
          s1 = s\<lparr>board := fold (\<lambda>stone b. setCell b stone EMPTY) stones (board s)\<rparr>;
          s2 = (if color = BLACK
                then s1\<lparr>capturedBlack := capturedBlack s1 + length stones\<rparr>
                else s1\<lparr>capturedWhite := capturedWhite s1 + length stones\<rparr>)
      in (s2, length stones))"

definition getCapturedStones :: "engine \<Rightarrow> int \<Rightarrow> int \<Rightarrow> stone \<Rightarrow> pos list" where
  "getCapturedStones s x y player =
     (let opponent = getOpponent player in
      fold (\<lambda>neighbor captured.
              if cellAt (board s) neighbor = opponent then
                (let group = getGroup s (fst neighbor) (snd neighbor) in
                 if length (snd group) = 0 then captured @ fst group else captured)
              else captured)
           (getNeighbors (sizeN s) (x, y)) [])"

definition hasLibertyAfterMove :: "engine \<Rightarrow> int \<Rightarrow> int \<Rightarrow> stone \<Rightarrow> bool" where
  "hasLibertyAfterMove s x y player = (length (snd (getGroup s x y)) > 0)"

definition isKoPoint :: "engine \<Rightarrow> int \<Rightarrow> int \<Rightarrow> bool" where
  "isKoPoint s x y =
     (case koPoint s of None \<Rightarrow> False | Some k \<Rightarrow> fst k = x \<and> snd k = y)"

subsection \<open>isValidMove\<close>

text \<open>
  \<open>{valid: true, captured}\<close> or \<open>{valid: false, reason}\<close>. The check writes the stone
  into the board, inspects it, and writes \<open>EMPTY\<close> back on each of its three exits; the
  model returns the engine it leaves behind together with the result.
\<close>

datatype validation = Valid "pos list" | Invalid reason

definition isValidMove :: "engine \<Rightarrow> int \<Rightarrow> int \<Rightarrow> stone \<Rightarrow> engine \<times> validation" where
  "isValidMove s x y player =
     (if \<not> isOnBoard (sizeN s) x y then (s, Invalid OutOfRange)
      else if cellAt (board s) (x, y) \<noteq> EMPTY then (s, Invalid Occupied)
      else if isKoPoint s x y then (s, Invalid KoViolation)
      else
        (let s1 = s\<lparr>board := setCell (board s) (x, y) player\<rparr>;
             captured = getCapturedStones s1 x y player
         in if length captured > 0 then
              (s1\<lparr>board := setCell (board s1) (x, y) EMPTY\<rparr>, Valid captured)
            else if \<not> hasLibertyAfterMove s1 x y player then
              (s1\<lparr>board := setCell (board s1) (x, y) EMPTY\<rparr>, Invalid Suicide)
            else (s1\<lparr>board := setCell (board s1) (x, y) EMPTY\<rparr>, Valid [])))"

subsection \<open>makeMove, undoMove, pass\<close>

text \<open>\<open>{success: false, reason}\<close> or \<open>{success: true, captured, koPoint}\<close>.\<close>

datatype move_result = MoveFailed reason | MoveOk nat "pos option"

definition makeMove :: "engine \<Rightarrow> int \<Rightarrow> int \<Rightarrow> stone \<Rightarrow> engine \<times> move_result" where
  "makeMove s x y player =
     (case isValidMove s x y player of
        (s0, Invalid r) \<Rightarrow> (s0, MoveFailed r)
      | (s0, Valid c) \<Rightarrow>
          (let s1 = s0\<lparr>board := setCell (board s0) (x, y) player\<rparr>;
               captured = getCapturedStones s1 x y player;
               (s2, capturedCount) =
                  (if length captured > 0 then removeGroup s1 captured else (s1, 0));
               s3 = s2\<lparr>koPoint := None\<rparr>;
               s4 = (if capturedCount = 1 then
                       (let myGroup = getGroup s3 x y in
                        if length (fst myGroup) = 1 \<and> length (snd myGroup) = 1
                        then s3\<lparr>koPoint := Some (hd (snd myGroup))\<rparr>
                        else s3)
                     else s3);
               s5 = s4\<lparr>lastMove := Some (x, y, player)\<rparr>;
               s6 = s5\<lparr>moveHistory := moveHistory s5 @ [Placement x y player capturedCount]\<rparr>;
               s7 = s6\<lparr>currentPlayer := getOpponent player\<rparr>;
               s8 = saveBoardState s7
           in (s8, MoveOk capturedCount (koPoint s8))))"

datatype undo_result = UndoOk | UndoFailed reason

text \<open>
  \<open>pop()\<close> on both histories (on an empty array it does nothing), then the fields are
  copied from the snapshot that is now last.
\<close>

definition undoMove :: "engine \<Rightarrow> engine \<times> undo_result" where
  "undoMove s =
     (if length (boardHistory s) \<le> 1 then (s, UndoFailed NothingToUndo)
      else
        (let s1 = s\<lparr>boardHistory := butlast (boardHistory s)\<rparr>;
             s2 = s1\<lparr>moveHistory := butlast (moveHistory s1)\<rparr>;
             prevState = last (boardHistory s2)
         in (s2\<lparr>board := snap_board prevState,
                currentPlayer := snap_currentPlayer prevState,
                capturedBlack := snap_capturedBlack prevState,
                capturedWhite := snap_capturedWhite prevState,
                koPoint := snap_koPoint prevState,
                lastMove := snap_lastMove prevState\<rparr>, UndoOk)))"

text \<open>\<open>{success: true, gameEnd}\<close>; \<open>history.slice(-2)\<close> is the last two entries.\<close>

record pass_result =
  success :: bool
  gameEnd :: bool

definition pass :: "engine \<Rightarrow> engine \<times> pass_result" where
  "pass s =
     (let player = currentPlayer s;
          s1 = s\<lparr>moveHistory := moveHistory s @ [PassEntry player]\<rparr>;
          s2 = s1\<lparr>currentPlayer := getOpponent player\<rparr>;
          s3 = s2\<lparr>koPoint := None\<rparr>;
          s4 = saveBoardState s3;
          history = moveHistory s4
      in if length history \<ge> 2 then
           (let lastTwo = drop (length history - 2) history in
            if isPass (lastTwo ! 0) \<and> isPass (lastTwo ! 1)
            then (s4, \<lparr>success = True, gameEnd = True\<rparr>)
            else (s4, \<lparr>success = True, gameEnd = False\<rparr>))
         else (s4, \<lparr>success = True, gameEnd = False\<rparr>))"

subsection \<open>getBoardState and loadState\<close>

text \<open>
  The record loadState reads. getBoardState fills \<open>board\<close>, \<open>currentPlayer\<close>,
  \<open>capturedBlack\<close>, \<open>capturedWhite\<close>, \<open>lastMove\<close>, \<open>koPoint\<close> and \<open>moveCount\<close>; it has
  no \<open>moveHistory\<close> and no \<open>boardHistory\<close> property, which loadState reads as
  \<open>state.moveHistory || []\<close> and \<open>state.boardHistory || []\<close> (an absent property is
  \<open>None\<close>; an array, also an empty one, is truthy).

  The record of getBoardState keeps the values of the moment it was built: its board is
  a copy, and the \<open>lastMove\<close> and \<open>koPoint\<close> objects it shares with the engine are never
  changed in place (the engine assigns new ones). loadState copies the board and adopts
  the two arrays of the record as they are; \<open>sv_moveHistory\<close> and \<open>sv_boardHistory\<close>
  stand for their content at the moment loadState reads them.
\<close>

record saved_state =
  sv_board :: grid
  sv_currentPlayer :: stone
  sv_capturedBlack :: nat
  sv_capturedWhite :: nat
  sv_lastMove :: "(int \<times> int \<times> stone) option"
  sv_koPoint :: "pos option"
  sv_moveCount :: nat
  sv_moveHistory :: "move_entry list option"
  sv_boardHistory :: "snapshot list option"

definition getBoardState :: "engine \<Rightarrow> saved_state" where
  "getBoardState s =
     \<lparr>sv_board = board s,
      sv_currentPlayer = currentPlayer s,
      sv_capturedBlack = capturedBlack s,
      sv_capturedWhite = capturedWhite s,
      sv_lastMove = lastMove s,
      sv_koPoint = koPoint s,
      sv_moveCount = length (moveHistory s),
      sv_moveHistory = None,
      sv_boardHistory = None\<rparr>"

definition loadState :: "engine \<Rightarrow> saved_state \<Rightarrow> engine" where
  "loadState s state =
     s\<lparr>board := sv_board state,
       currentPlayer := sv_currentPlayer state,
       capturedBlack := sv_capturedBlack state,
       capturedWhite := sv_capturedWhite state,
       lastMove := sv_lastMove state,
       koPoint := sv_koPoint state,
       moveHistory := (case sv_moveHistory state of None \<Rightarrow> [] | Some h \<Rightarrow> h),
       boardHistory := (case sv_boardHistory state of None \<Rightarrow> [] | Some h \<Rightarrow> h)\<rparr>"

subsection \<open>getAllValidMoves\<close>

text \<open>The points in the order of \<open>for x ... for y ...\<close>.\<close>

definition allPoints :: "nat \<Rightarrow> pos list" where
  "allPoints n = concat (map (\<lambda>x. map (\<lambda>y. (int x, int y)) [0 ..< n]) [0 ..< n])"

definition getAllValidMoves :: "engine \<Rightarrow> stone \<Rightarrow> engine \<times> pos list" where
  "getAllValidMoves s player =
     fold (\<lambda>p (s', validMoves).
             case isValidMove s' (fst p) (snd p) player of
               (s'', Valid c) \<Rightarrow> (s'', validMoves @ [p])
             | (s'', Invalid r) \<Rightarrow> (s'', validMoves))
          (allPoints (sizeN s)) (s, [])"

subsection \<open>calculateTerritory\<close>

text \<open>
  The inner neighbour loop of the flood fill, on
  (touchesBlack, touchesWhite, visited, queue).
\<close>

fun scanRegion ::
  "grid \<Rightarrow> pos list \<Rightarrow> bool \<times> bool \<times> pos list \<times> pos list
     \<Rightarrow> bool \<times> bool \<times> pos list \<times> pos list" where
  "scanRegion b [] st = st"
| "scanRegion b (nb # nbs) (touchesBlack, touchesWhite, visited, queue) =
     (if cellAt b nb = BLACK then
        scanRegion b nbs (True, touchesWhite, visited, queue)
      else if cellAt b nb = WHITE then
        scanRegion b nbs (touchesBlack, True, visited, queue)
      else if nb \<notin> set visited then
        scanRegion b nbs (touchesBlack, touchesWhite, visited @ [nb], queue @ [nb])
      else scanRegion b nbs (touchesBlack, touchesWhite, visited, queue))"

lemma scanRegion_shape:
  "scanRegion b nbs (tb, tw, visited, queue) = (tb', tw', visited', queue') \<Longrightarrow>
   \<exists>new. visited' = visited @ new \<and> queue' = queue @ new \<and> distinct new \<and>
         set new \<inter> set visited = {} \<and> set new \<subseteq> set nbs"
proof (induction nbs arbitrary: tb tw visited queue)
  case Nil
  then show ?case by simp
next
  case (Cons nb nbs)
  consider (black) "cellAt b nb = BLACK"
    | (white) "cellAt b nb \<noteq> BLACK" "cellAt b nb = WHITE"
    | (fresh) "cellAt b nb \<noteq> BLACK" "cellAt b nb \<noteq> WHITE" "nb \<notin> set visited"
    | (seen) "cellAt b nb \<noteq> BLACK" "cellAt b nb \<noteq> WHITE" "nb \<in> set visited"
    by blast
  then show ?case
  proof cases
    case black
    with Cons.prems have "scanRegion b nbs (True, tw, visited, queue) = (tb', tw', visited', queue')"
      by simp
    from Cons.IH [OF this] show ?thesis by auto
  next
    case white
    with Cons.prems have "scanRegion b nbs (tb, True, visited, queue) = (tb', tw', visited', queue')"
      by simp
    from Cons.IH [OF this] show ?thesis by auto
  next
    case fresh
    with Cons.prems have
      "scanRegion b nbs (tb, tw, visited @ [nb], queue @ [nb]) = (tb', tw', visited', queue')"
      by simp
    from Cons.IH [OF this] obtain new where new:
      "visited' = (visited @ [nb]) @ new" "queue' = (queue @ [nb]) @ new" "distinct new"
      "set new \<inter> set (visited @ [nb]) = {}" "set new \<subseteq> set nbs"
      by blast
    have "visited' = visited @ (nb # new)" "queue' = queue @ (nb # new)"
      using new by simp_all
    moreover have "distinct (nb # new)" using new by auto
    moreover have "set (nb # new) \<inter> set visited = {}" using new fresh by auto
    moreover have "set (nb # new) \<subseteq> set (nb # nbs)" using new by auto
    ultimately show ?thesis by blast
  next
    case seen
    with Cons.prems have "scanRegion b nbs (tb, tw, visited, queue) = (tb', tw', visited', queue')"
      by simp
    from Cons.IH [OF this] show ?thesis by auto
  qed
qed

lemma regionLoop_step_decreases:
  assumes "(tb', tw', visited', queue') =
      scanRegion b (getNeighbors n current) (tb, tw, visited, queue)"
  shows "2 * card (onBoardSet n - set visited') + length queue'
         < Suc (2 * card (onBoardSet n - set visited) + length queue)"
proof -
  from assms have eq: "scanRegion b (getNeighbors n current) (tb, tw, visited, queue) =
      (tb', tw', visited', queue')"
    by simp
  from scanRegion_shape [OF eq] obtain new where new:
    "visited' = visited @ new" "queue' = queue @ new" "distinct new"
    "set new \<inter> set visited = {}" "set new \<subseteq> set (getNeighbors n current)"
    by blast
  have "set new \<subseteq> onBoardSet n"
    using new(5) getNeighbors_onBoard by blast
  from unvisited_decreases [OF new(3) new(4) this]
  have "card (onBoardSet n - set visited') + length new = card (onBoardSet n - set visited)"
    using new(1) by simp
  then show ?thesis
    using new(2) by simp
qed

text \<open>
  The \<open>while (queue.length > 0)\<close> loop of one region; it returns the region, the two
  flags and the visited set.
\<close>

function regionLoop ::
  "nat \<Rightarrow> grid \<Rightarrow> pos list \<Rightarrow> pos list \<Rightarrow> pos list \<Rightarrow> bool \<Rightarrow> bool
     \<Rightarrow> pos list \<times> bool \<times> bool \<times> pos list" where
  "regionLoop n b [] visited region touchesBlack touchesWhite =
     (region, touchesBlack, touchesWhite, visited)"
| "regionLoop n b (current # queue) visited region touchesBlack touchesWhite =
     (case scanRegion b (getNeighbors n current) (touchesBlack, touchesWhite, visited, queue) of
        (touchesBlack', touchesWhite', visited', queue') \<Rightarrow>
          regionLoop n b queue' visited' (region @ [current]) touchesBlack' touchesWhite')"
  by pat_completeness auto
termination
  by (relation "measure (\<lambda>(n, b, queue, visited, region, tb, tw).
          2 * card (onBoardSet n - set visited) + length queue)")
     (auto dest: regionLoop_step_decreases)

record territory =
  terr_black :: nat
  terr_white :: nat
  terr_neutral :: nat

text \<open>The body of the two \<open>for\<close> loops, on (territory, visited).\<close>

definition territoryStep ::
  "nat \<Rightarrow> grid \<Rightarrow> pos \<Rightarrow> territory \<times> pos list \<Rightarrow> territory \<times> pos list" where
  "territoryStep n b p st =
     (case st of (t, visited) \<Rightarrow>
        if cellAt b p \<noteq> EMPTY \<or> p \<in> set visited then (t, visited)
        else
          (case regionLoop n b [p] (visited @ [p]) [] False False of
             (region, touchesBlack, touchesWhite, visited') \<Rightarrow>
               if touchesBlack \<and> \<not> touchesWhite then
                 (t\<lparr>terr_black := terr_black t + length region\<rparr>, visited')
               else if touchesWhite \<and> \<not> touchesBlack then
                 (t\<lparr>terr_white := terr_white t + length region\<rparr>, visited')
               else (t\<lparr>terr_neutral := terr_neutral t + length region\<rparr>, visited')))"

definition calculateTerritory :: "engine \<Rightarrow> territory" where
  "calculateTerritory s =
     fst (fold (territoryStep (sizeN s) (board s)) (allPoints (sizeN s))
            (\<lparr>terr_black = 0, terr_white = 0, terr_neutral = 0\<rparr>, []))"

subsection \<open>calculateScore\<close>

text \<open>
  The scores are JavaScript numbers: a count of cells plus, for white, the literal
  \<open>7.5\<close>. Both are exact in binary floating point, and are modelled as rationals.
\<close>

record score =
  sc_black :: rat
  sc_white :: rat
  sc_blackStones :: nat
  sc_whiteStones :: nat
  sc_blackTerritory :: nat
  sc_whiteTerritory :: nat
  sc_winner :: stone
  sc_margin :: rat

text \<open>The counting loops, on (blackStones, whiteStones).\<close>

definition countStones :: "engine \<Rightarrow> nat \<times> nat" where
  "countStones s =
     fold (\<lambda>p (blackStones, whiteStones).
             if cellAt (board s) p = BLACK then (blackStones + 1, whiteStones)
             else if cellAt (board s) p = WHITE then (blackStones, whiteStones + 1)
             else (blackStones, whiteStones))
          (allPoints (sizeN s)) (0, 0)"

definition calculateScore :: "engine \<Rightarrow> score" where
  "calculateScore s =
     (let terr = calculateTerritory s;
          (blackStones, whiteStones) = countStones s;
          blackScore = of_nat (blackStones + terr_black terr);
          whiteScore = of_nat (whiteStones + terr_white terr) + 15 / 2
      in \<lparr>sc_black = blackScore,
          sc_white = whiteScore,
          sc_blackStones = blackStones,
          sc_whiteStones = whiteStones,
          sc_blackTerritory = terr_black terr,
          sc_whiteTerritory = terr_white terr,
          sc_winner = (if blackScore > whiteScore then BLACK else WHITE),
          sc_margin = \<bar>blackScore - whiteScore\<bar>\<rparr>)"

section \<open>The easy tier of the move selector (src/js/game/ai.js)\<close>

text \<open>
  \<open>Math.floor(Math.random() * n)\<close>, the value \<open>r\<close> of \<open>Math.random()\<close> being a
  parameter; \<open>Math.random()\<close> returns a number in the interval from 0 (included) to 1
  (excluded).
\<close>

definition randomIndex :: "rat \<Rightarrow> nat \<Rightarrow> nat" where
  "randomIndex r n = nat \<lfloor>r * of_nat n\<rfloor>"

definition findCaptureMoves :: "engine \<Rightarrow> pos list \<Rightarrow> stone \<Rightarrow> engine \<times> pos list" where
  "findCaptureMoves s validMoves color =
     fold (\<lambda>move (s', captureMoves).
             case isValidMove s' (fst move) (snd move) color of
               (s'', Valid captured) \<Rightarrow>
                 if length captured > 0 then (s'', captureMoves @ [move])
                 else (s'', captureMoves)
             | (s'', Invalid r) \<Rightarrow> (s'', captureMoves))
          validMoves (s, [])"

definition filterSafeMoves :: "engine \<Rightarrow> pos list \<Rightarrow> stone \<Rightarrow> engine \<times> pos list" where
  "filterSafeMoves s validMoves color =
     fold (\<lambda>move (s', safeMoves).
             let originalBoard = board s';
                 s1 = s'\<lparr>board := setCell (board s') move color\<rparr>;
                 group = getGroup s1 (fst move) (snd move);
                 isSafe = (length (snd group) \<ge> 2);
                 s2 = s1\<lparr>board := originalBoard\<rparr>
             in if isSafe then (s2, safeMoves @ [move]) else (s2, safeMoves))
          validMoves (s, [])"

definition getEasyMove :: "engine \<Rightarrow> pos list \<Rightarrow> stone \<Rightarrow> rat \<Rightarrow> engine \<times> pos" where
  "getEasyMove s validMoves color r =
     (case findCaptureMoves s validMoves color of (s1, captureMoves) \<Rightarrow>
        if length captureMoves > 0 then
          (s1, captureMoves ! randomIndex r (length captureMoves))
        else
          (case filterSafeMoves s1 validMoves color of (s2, safeMoves) \<Rightarrow>
             if length safeMoves > 0 then
               (s2, safeMoves ! randomIndex r (length safeMoves))
             else (s2, validMoves ! randomIndex r (length validMoves))))"

text \<open>getMove of a selector whose \<open>level\<close> is \<open>'easy'\<close>; \<open>None\<close> is \<open>null\<close>.\<close>

definition getMove_easy :: "engine \<Rightarrow> stone \<Rightarrow> rat \<Rightarrow> engine \<times> pos option" where
  "getMove_easy s color r =
     (case getAllValidMoves s color of (s1, validMoves) \<Rightarrow>
        if length validMoves = 0 then (s1, None)
        else (case getEasyMove s1 validMoves color r of (s2, move) \<Rightarrow> (s2, Some move)))"

section \<open>Notions used to state the properties\<close>

text \<open>
  The calls the game's main module issues on the engine: \<open>makeMove(x, y)\<close> with the
  default player (the current one) and \<open>pass()\<close>.
\<close>

datatype ply = Place int int | Pass

fun playPlies :: "engine \<Rightarrow> ply list \<Rightarrow> engine" where
  "playPlies s [] = s"
| "playPlies s (Place x y # ps) = playPlies (fst (makeMove s x y (currentPlayer s))) ps"
| "playPlies s (Pass # ps) = playPlies (fst (pass s)) ps"

text \<open>The engine after \<open>this.board[x][y] = player\<close>, the hypothetical placement.\<close>

definition placeStone :: "engine \<Rightarrow> int \<Rightarrow> int \<Rightarrow> stone \<Rightarrow> engine" where
  "placeStone s x y player = s\<lparr>board := setCell (board s) (x, y) player\<rparr>"

text \<open>The snapshot saveBoardState takes of an engine.\<close>

definition snapshotOf :: "engine \<Rightarrow> snapshot" where
  "snapshotOf s =
     \<lparr>snap_board = board s, snap_currentPlayer = currentPlayer s,
      snap_capturedBlack = capturedBlack s, snap_capturedWhite = capturedWhite s,
      snap_koPoint = koPoint s, snap_lastMove = lastMove s\<rparr>"

definition historyOk :: "engine \<Rightarrow> bool" where
  "historyOk s = (boardHistory s \<noteq> [] \<and> last (boardHistory s) = snapshotOf s)"

text \<open>
  An engine is well formed with its history when its grid and the grid of every
  snapshot have \<open>size\<close> rows of \<open>size\<close> cells.
\<close>

definition historyWf :: "engine \<Rightarrow> bool" where
  "historyWf s = (wf_engine s \<and> list_all (\<lambda>p. wf_grid (sizeN s) (snap_board p)) (boardHistory s))"

text \<open>
  A ko point is open when it is a point of the board that is empty; \<open>historyKo\<close> says
  so of the engine and of every snapshot.
\<close>

definition koOpen :: "nat \<Rightarrow> grid \<Rightarrow> pos option \<Rightarrow> bool" where
  "koOpen n b k = (case k of None \<Rightarrow> True | Some kp \<Rightarrow> kp \<in> onBoardSet n \<and> cellAt b kp = EMPTY)"

definition historyKo :: "engine \<Rightarrow> bool" where
  "historyKo s = (koOpen (sizeN s) (board s) (koPoint s)
     \<and> list_all (\<lambda>p. koOpen (sizeN s) (snap_board p) (snap_koPoint p)) (boardHistory s))"

text \<open>
  The engines reached from a fresh one by makeMove (accepted or rejected), pass and
  undoMove alone. loadState is not among these operations: it installs whatever the
  record holds, and leads outside this set.
\<close>

inductive played :: "engine \<Rightarrow> bool" where
  play_init: "played (init n)"
| play_makeMove: "played s \<Longrightarrow> played (fst (makeMove s x y player))"
| play_pass: "played s \<Longrightarrow> played (fst (pass s))"
| play_undoMove: "played s \<Longrightarrow> played (fst (undoMove s))"

text \<open>The number of cells of one colour on a grid.\<close>

definition stonesOn :: "stone \<Rightarrow> grid \<Rightarrow> nat" where
  "stonesOn c b = length (filter (\<lambda>v. v = c) (concat b))"

text \<open>
  Positions on a 3 by 3 board used below. In \<open>sharedGroup\<close> the white stones at (0,0),
  (0,1), (1,0) form one group whose last liberty is (1,1), and two of them are
  neighbours of (1,1). In \<open>cornerCapture\<close> black may take the corner (0,0), which has no
  liberty of its own, by capturing (0,1) and (1,0). In \<open>cornerSuicide\<close> the corner is
  closed for white. \<open>fullBoard\<close> is a loaded grid without an empty point.
\<close>

definition sharedGroup :: engine where
  "sharedGroup = playPlies (init 3)
     [Place 0 2, Place 0 0, Place 2 0, Place 0 1, Place 2 2, Place 1 0]"

text \<open>\<open>reloaded\<close> is \<open>sharedGroup\<close> saved with getBoardState and loaded again.\<close>

definition reloaded :: engine where
  "reloaded = loadState sharedGroup (getBoardState sharedGroup)"

definition cornerCapture :: engine where
  "cornerCapture = playPlies (init 3)
     [Place 1 1, Place 0 1, Place 0 2, Place 1 0, Place 2 0, Pass]"

definition cornerSuicide :: engine where
  "cornerSuicide = playPlies (init 3) [Place 0 1, Pass, Place 1 0]"

definition fullBoard :: engine where
  "fullBoard = loadState (init 3)
     ((getBoardState (init 3))\<lparr>sv_board :=
        [[BLACK, BLACK, WHITE], [BLACK, WHITE, WHITE], [BLACK, BLACK, WHITE]]\<rparr>)"

text \<open>
  Steps (4) to (6) of the legality check, in the spec's words: a placement that
  captures is legal; otherwise one that leaves its own group without a liberty is
  suicide; otherwise it is legal and captures nothing.
\<close>

definition captureOrSuicide :: "engine \<Rightarrow> int \<Rightarrow> int \<Rightarrow> stone \<Rightarrow> validation" where
  "captureOrSuicide s x y player =
     (let captured = getCapturedStones (placeStone s x y player) x y player in
      if captured \<noteq> [] then Valid captured
      else if snd (getGroup (placeStone s x y player) x y) = [] then Invalid Suicide
      else Valid [])"

text \<open>
  In \<open>lastEye\<close>, on a 2 by 2 board, white has one legal move, (1,1), and it captures.
  In \<open>koBefore\<close> black takes the white stone at (0,0) by playing (0,1); \<open>koShape\<close> is
  the engine after that move, with the ko point (0,0).
\<close>

definition lastEye :: engine where
  "lastEye = playPlies (init 2) [Place 0 0, Pass, Place 0 1, Pass, Place 1 0]"

definition koBefore :: engine where
  "koBefore = playPlies (init 3)
     [Place 1 0, Place 0 0, Pass, Place 1 1, Pass, Place 0 2, Pass, Place 1 2]"

definition koShape :: engine where
  "koShape = fst (makeMove koBefore 0 1 BLACK)"

section \<open>Properties\<close>

subsection \<open>Basic facts\<close>

lemma getOpponent_neq: "getOpponent p \<noteq> p"
  by (cases p) (simp_all add: getOpponent_def)

lemma setCell_restore:
  "cellAt b p = EMPTY \<Longrightarrow> setCell (setCell b p v) p EMPTY = b"
proof -
  assume e: "cellAt b p = EMPTY"
  let ?i = "nat (fst p)" and ?j = "nat (snd p)"
  have row: "(b ! ?i)[?j := EMPTY] = b ! ?i"
    using e list_update_id [of "b ! ?i" ?j] by (simp add: cellAt_def)
  show ?thesis
  proof (cases "?i < length b")
    case True
    then show ?thesis using row by (simp add: setCell_def)
  next
    case False
    then show ?thesis by (simp add: setCell_def list_update_beyond)
  qed
qed

lemma isValidMove_frame: "fst (isValidMove s x y player) = s"
  by (simp add: isValidMove_def Let_def setCell_restore)

lemma isValidMove_reasons:
  "snd (isValidMove s x y player) = Invalid r \<Longrightarrow>
   r = OutOfRange \<or> r = Occupied \<or> r = KoViolation \<or> r = Suicide"
  by (auto simp: isValidMove_def Let_def split: if_splits)

lemma pass_fields:
  "moveHistory (fst (pass s)) = moveHistory s @ [PassEntry (currentPlayer s)]"
  "currentPlayer (fst (pass s)) = getOpponent (currentPlayer s)"
  "koPoint (fst (pass s)) = None"
  "success (snd (pass s))"
  "board (fst (pass s)) = board s"
  "sizeN (fst (pass s)) = sizeN s"
  by (simp_all add: pass_def Let_def saveBoardState_def)

lemma pass_gameEnd:
  "gameEnd (snd (pass s)) = (moveHistory s \<noteq> [] \<and> isPass (last (moveHistory s)))"
proof (cases "moveHistory s" rule: rev_cases)
  case Nil
  then show ?thesis by (simp add: pass_def Let_def saveBoardState_def)
next
  case (snoc ys y)
  then show ?thesis by (simp add: pass_def Let_def saveBoardState_def)
qed

subsection \<open>The legality check leaves the engine as it found it\<close>

text \<open>
  Claim C6. For every engine, every player and all coordinates, isValidMove leaves the
  whole engine, and so the board, exactly as it was before the call, whether it accepts
  or rejects; and the reason of a rejection is one of out of range, occupied, ko
  violation, suicide.
\<close>

theorem C6_isValidMove_pure:
  "fst (isValidMove s x y player) = s \<and>
   board (fst (isValidMove s x y player)) = board s \<and>
   (\<forall>r. snd (isValidMove s x y player) = Invalid r \<longrightarrow>
        r \<in> {OutOfRange, Occupied, KoViolation, Suicide})"
  using isValidMove_reasons [of s x y player] by (auto simp: isValidMove_frame)

theorem C6_witness:
  "fst (isValidMove cornerCapture 0 0 BLACK) = cornerCapture
   \<and> snd (isValidMove cornerCapture 0 0 BLACK) = Valid [(1, 0), (0, 1)]
   \<and> fst (isValidMove cornerSuicide 0 0 WHITE) = cornerSuicide
   \<and> snd (isValidMove cornerSuicide 0 0 WHITE) = Invalid Suicide
   \<and> fst (isValidMove (init 3) 3 0 BLACK) = init 3
   \<and> snd (isValidMove (init 3) 3 0 BLACK) = Invalid OutOfRange"
proof -
  have v: "snd (isValidMove cornerCapture 0 0 BLACK) = Valid [(1, 0), (0, 1)]"
    "snd (isValidMove cornerSuicide 0 0 WHITE) = Invalid Suicide"
    "snd (isValidMove (init 3) 3 0 BLACK) = Invalid OutOfRange"
    by code_simp+
  from C6_isValidMove_pure [of cornerCapture 0 0 BLACK]
       C6_isValidMove_pure [of cornerSuicide 0 0 WHITE]
       C6_isValidMove_pure [of "init 3" 3 0 BLACK] v
  show ?thesis by simp
qed

subsection \<open>Passing\<close>

text \<open>
  Claim C8. pass reports the end of the game exactly when, once the pass is logged, the
  two most recent entries of the move log are both passes. From an empty move log one
  pass does not end the game and the pass right after it does. Every pass hands the
  turn to the opponent and clears the ko point.
\<close>

theorem C8_pass:
  "gameEnd (snd (pass s)) =
     (let history = moveHistory (fst (pass s)) in
      length history \<ge> 2 \<and> isPass (history ! (length history - 2))
        \<and> isPass (history ! (length history - 1)))
   \<and> moveHistory (fst (pass s)) = moveHistory s @ [PassEntry (currentPlayer s)]
   \<and> (moveHistory s = [] \<longrightarrow>
        \<not> gameEnd (snd (pass s)) \<and> gameEnd (snd (pass (fst (pass s)))))
   \<and> currentPlayer (fst (pass s)) = getOpponent (currentPlayer s)
   \<and> currentPlayer (fst (pass s)) \<noteq> currentPlayer s
   \<and> koPoint (fst (pass s)) = None"
proof -
  have a: "gameEnd (snd (pass s)) =
     (let history = moveHistory (fst (pass s)) in
      length history \<ge> 2 \<and> isPass (history ! (length history - 2))
        \<and> isPass (history ! (length history - 1)))"
  proof (cases "moveHistory s" rule: rev_cases)
    case Nil
    then show ?thesis by (simp add: pass_gameEnd pass_fields)
  next
    case (snoc ys y)
    then show ?thesis by (simp add: pass_gameEnd pass_fields nth_append)
  qed
  have b: "moveHistory s = [] \<longrightarrow>
        \<not> gameEnd (snd (pass s)) \<and> gameEnd (snd (pass (fst (pass s))))"
    by (simp add: pass_gameEnd pass_fields)
  show ?thesis
    using a b by (simp add: pass_fields getOpponent_neq)
qed

theorem C8_witness:
  "moveHistory (init 3) = [] \<and> \<not> gameEnd (snd (pass (init 3)))
   \<and> gameEnd (snd (pass (fst (pass (init 3)))))
   \<and> currentPlayer (fst (pass (init 3))) = WHITE"
proof -
  have e: "moveHistory (init 3) = []" by (simp add: init_def saveBoardState_def)
  have c: "currentPlayer (init 3) = BLACK" by (simp add: init_def saveBoardState_def)
  from C8_pass [of "init 3"] e c show ?thesis by (simp add: getOpponent_def)
qed

subsection \<open>Saving and restoring\<close>

lemma loadState_getBoardState:
  "loadState t (getBoardState s) =
     t\<lparr>board := board s, currentPlayer := currentPlayer s, capturedBlack := capturedBlack s,
       capturedWhite := capturedWhite s, lastMove := lastMove s, koPoint := koPoint s,
       moveHistory := [], boardHistory := []\<rparr>"
  by (simp add: loadState_def getBoardState_def)

text \<open>
  Claim C2, as stated, fails: the record getBoardState returns holds the number of
  moves but neither log, so after one pass saved and reloaded the move log and the
  snapshot history are empty, undoMove is refused where the original engine allowed
  it, and a second pass does not end the game where it did on the original.
\<close>

theorem C2_counterexample:
  "moveHistory (loadState (playPlies (init 3) [Pass]) (getBoardState (playPlies (init 3) [Pass])))
     \<noteq> moveHistory (playPlies (init 3) [Pass])
   \<and> boardHistory (loadState (playPlies (init 3) [Pass]) (getBoardState (playPlies (init 3) [Pass])))
     \<noteq> boardHistory (playPlies (init 3) [Pass])
   \<and> snd (undoMove (playPlies (init 3) [Pass])) = UndoOk
   \<and> snd (undoMove (loadState (playPlies (init 3) [Pass]) (getBoardState (playPlies (init 3) [Pass]))))
     = UndoFailed NothingToUndo
   \<and> gameEnd (snd (pass (playPlies (init 3) [Pass])))
   \<and> \<not> gameEnd (snd (pass (loadState (playPlies (init 3) [Pass]) (getBoardState (playPlies (init 3) [Pass])))))"
  by code_simp

text \<open>
  Claim C2, amended. Whatever engine loads it, loadState applied to the record
  getBoardState returned for an engine restores that engine's board grid,
  currentPlayer, capturedBlack, capturedWhite, lastMove and koPoint exactly and keeps
  the size of the loading engine; the record's moveCount is the length of the move
  log, but the record holds neither log, and loadState leaves the move log and the
  snapshot history empty: loaded into the engine it came from, the result is that
  engine with both logs emptied, undoMove is refused and a pass cannot end the game.
\<close>

theorem C2_roundtrip_amended:
  "board (loadState t (getBoardState s)) = board s
   \<and> currentPlayer (loadState t (getBoardState s)) = currentPlayer s
   \<and> capturedBlack (loadState t (getBoardState s)) = capturedBlack s
   \<and> capturedWhite (loadState t (getBoardState s)) = capturedWhite s
   \<and> lastMove (loadState t (getBoardState s)) = lastMove s
   \<and> koPoint (loadState t (getBoardState s)) = koPoint s
   \<and> sizeN (loadState t (getBoardState s)) = sizeN t
   \<and> sv_moveCount (getBoardState s) = length (moveHistory s)
   \<and> moveHistory (loadState t (getBoardState s)) = []
   \<and> boardHistory (loadState t (getBoardState s)) = []
   \<and> loadState s (getBoardState s) = s\<lparr>moveHistory := [], boardHistory := []\<rparr>
   \<and> snd (undoMove (loadState t (getBoardState s))) = UndoFailed NothingToUndo
   \<and> \<not> gameEnd (snd (pass (loadState t (getBoardState s))))"
proof -
  have cnt: "sv_moveCount (getBoardState s) = length (moveHistory s)"
    by (simp add: getBoardState_def)
  have same: "loadState s (getBoardState s) = s\<lparr>moveHistory := [], boardHistory := []\<rparr>"
    by (simp add: loadState_getBoardState)
  have undo: "snd (undoMove (loadState t (getBoardState s))) = UndoFailed NothingToUndo"
    by (simp add: loadState_getBoardState undoMove_def)
  have fields: "board (loadState t (getBoardState s)) = board s
   \<and> currentPlayer (loadState t (getBoardState s)) = currentPlayer s
   \<and> capturedBlack (loadState t (getBoardState s)) = capturedBlack s
   \<and> capturedWhite (loadState t (getBoardState s)) = capturedWhite s
   \<and> lastMove (loadState t (getBoardState s)) = lastMove s
   \<and> koPoint (loadState t (getBoardState s)) = koPoint s
   \<and> sizeN (loadState t (getBoardState s)) = sizeN t
   \<and> moveHistory (loadState t (getBoardState s)) = []
   \<and> boardHistory (loadState t (getBoardState s)) = []"
    by (simp add: loadState_getBoardState)
  then have "\<not> gameEnd (snd (pass (loadState t (getBoardState s))))"
    by (simp add: pass_gameEnd)
  with cnt same undo fields show ?thesis by (intro conjI) blast+
qed

theorem C2_witness:
  "board (loadState sharedGroup (getBoardState (playPlies (init 3) [Place 1 1, Pass])))
     = [[EMPTY, EMPTY, EMPTY], [EMPTY, BLACK, EMPTY], [EMPTY, EMPTY, EMPTY]]
   \<and> currentPlayer (loadState sharedGroup (getBoardState (playPlies (init 3) [Place 1 1, Pass])))
     = BLACK
   \<and> lastMove (loadState sharedGroup (getBoardState (playPlies (init 3) [Place 1 1, Pass])))
     = Some (1, 1, BLACK)
   \<and> moveHistory (loadState sharedGroup (getBoardState (playPlies (init 3) [Place 1 1, Pass])))
     = []
   \<and> boardHistory (loadState sharedGroup (getBoardState (playPlies (init 3) [Place 1 1, Pass])))
     = []"
proof -
  have v: "board (playPlies (init 3) [Place 1 1, Pass])
             = [[EMPTY, EMPTY, EMPTY], [EMPTY, BLACK, EMPTY], [EMPTY, EMPTY, EMPTY]]"
    "currentPlayer (playPlies (init 3) [Place 1 1, Pass]) = BLACK"
    "lastMove (playPlies (init 3) [Place 1 1, Pass]) = Some (1, 1, BLACK)"
    by code_simp+
  from C2_roundtrip_amended [of sharedGroup "playPlies (init 3) [Place 1 1, Pass]"] v
  show ?thesis by simp
qed

subsection \<open>Captures are resolved before suicide is judged\<close>

text \<open>
  Claim C3. At an empty point on the board that is not the ko point, for every player:
  if the stones getCapturedStones finds after the placement are not none, isValidMove
  accepts the move (with these stones), whatever the liberties of the placed stone; if
  there are none and the group of the placed stone has no liberty, it rejects the move
  as suicide; otherwise it accepts the move with an empty capture list.
\<close>

theorem C3_capture_before_suicide:
  assumes "isOnBoard (sizeN s) x y" "cellAt (board s) (x, y) = EMPTY"
    "\<not> isKoPoint s x y"
  shows "(getCapturedStones (placeStone s x y player) x y player \<noteq> [] \<longrightarrow>
            snd (isValidMove s x y player)
              = Valid (getCapturedStones (placeStone s x y player) x y player))
       \<and> (getCapturedStones (placeStone s x y player) x y player = []
            \<and> snd (getGroup (placeStone s x y player) x y) = [] \<longrightarrow>
            snd (isValidMove s x y player) = Invalid Suicide)
       \<and> (getCapturedStones (placeStone s x y player) x y player = []
            \<and> snd (getGroup (placeStone s x y player) x y) \<noteq> [] \<longrightarrow>
            snd (isValidMove s x y player) = Valid [])"
  using assms
  by (simp add: isValidMove_def placeStone_def Let_def hasLibertyAfterMove_def)

theorem C3_witness:
  "snd (getGroup (placeStone cornerCapture 0 0 BLACK) 0 0) = []
   \<and> snd (isValidMove cornerCapture 0 0 BLACK) = Valid [(1, 0), (0, 1)]
   \<and> snd (isValidMove cornerSuicide 0 0 WHITE) = Invalid Suicide
   \<and> snd (isValidMove (init 3) 1 1 BLACK) = Valid []"
proof -
  have a: "isOnBoard (sizeN cornerCapture) 0 0"
    "cellAt (board cornerCapture) (0, 0) = EMPTY" "\<not> isKoPoint cornerCapture 0 0"
    by code_simp+
  have a': "getCapturedStones (placeStone cornerCapture 0 0 BLACK) 0 0 BLACK = [(1, 0), (0, 1)]"
    "snd (getGroup (placeStone cornerCapture 0 0 BLACK) 0 0) = []"
    by code_simp+
  have b: "isOnBoard (sizeN cornerSuicide) 0 0"
    "cellAt (board cornerSuicide) (0, 0) = EMPTY" "\<not> isKoPoint cornerSuicide 0 0"
    by code_simp+
  have b': "getCapturedStones (placeStone cornerSuicide 0 0 WHITE) 0 0 WHITE = []"
    "snd (getGroup (placeStone cornerSuicide 0 0 WHITE) 0 0) = []"
    by code_simp+
  have c: "isOnBoard (sizeN (init 3)) 1 1"
    "cellAt (board (init 3)) (1, 1) = EMPTY" "\<not> isKoPoint (init 3) 1 1"
    by code_simp+
  have c': "getCapturedStones (placeStone (init 3) 1 1 BLACK) 1 1 BLACK = []"
    "snd (getGroup (placeStone (init 3) 1 1 BLACK) 1 1) \<noteq> []"
    by code_simp+
  from C3_capture_before_suicide [OF a, of BLACK] a'
       C3_capture_before_suicide [OF b, of WHITE] b'
       C3_capture_before_suicide [OF c, of BLACK] c'
  show ?thesis by simp
qed

subsection \<open>Undo after a move\<close>

lemma saveBoardState_snapshot:
  "saveBoardState s = s\<lparr>boardHistory := boardHistory s @ [snapshotOf s]\<rparr>"
  by (simp add: saveBoardState_def snapshotOf_def)

lemma snapshotOf_boardHistory [simp]:
  "snapshotOf (s\<lparr>boardHistory := h\<rparr>) = snapshotOf s"
  by (simp add: snapshotOf_def)

lemma removeGroup_histories:
  "moveHistory (fst (removeGroup s stones)) = moveHistory s"
  "boardHistory (fst (removeGroup s stones)) = boardHistory s"
  "sizeN (fst (removeGroup s stones)) = sizeN s"
  by (simp_all add: removeGroup_def Let_def)

text \<open>What a successful makeMove leaves in the fields it logs.\<close>

lemma makeMove_success:
  assumes "makeMove s x y player = (s', MoveOk c k)"
  shows "moveHistory s' = moveHistory s @ [Placement x y player c]"
    and "boardHistory s' = boardHistory s @ [snapshotOf s']"
    and "sizeN s' = sizeN s"
    and "currentPlayer s' = getOpponent player"
    and "lastMove s' = Some (x, y, player)"
    and "koPoint s' = k"
proof -
  obtain v where v: "isValidMove s x y player = (s, v)"
    using isValidMove_frame [of s x y player] by (cases "isValidMove s x y player") simp
  from assms v obtain cs where cs: "v = Valid cs"
    by (cases v) (simp_all add: makeMove_def)
  define s1 where "s1 = s\<lparr>board := setCell (board s) (x, y) player\<rparr>"
  define captured where "captured = getCapturedStones s1 x y player"
  define rg where "rg = (if length captured > 0 then removeGroup s1 captured else (s1, 0))"
  define s3 where "s3 = (fst rg)\<lparr>koPoint := None\<rparr>"
  define s4 where "s4 = (if snd rg = 1 then
                       (let myGroup = getGroup s3 x y in
                        if length (fst myGroup) = 1 \<and> length (snd myGroup) = 1
                        then s3\<lparr>koPoint := Some (hd (snd myGroup))\<rparr>
                        else s3)
                     else s3)"
  have h4: "moveHistory s4 = moveHistory s" "boardHistory s4 = boardHistory s" "sizeN s4 = sizeN s"
    by (simp_all add: s4_def s3_def rg_def s1_def Let_def removeGroup_histories)
  have res: "makeMove s x y player =
     (saveBoardState (s4\<lparr>lastMove := Some (x, y, player),
          moveHistory := moveHistory s4 @ [Placement x y player (snd rg)],
          currentPlayer := getOpponent player\<rparr>),
      MoveOk (snd rg) (koPoint s4))"
    unfolding makeMove_def v cs s4_def s3_def rg_def captured_def s1_def
    by (simp add: Let_def saveBoardState_def split: prod.splits)
  from res assms have s': "s' = saveBoardState (s4\<lparr>lastMove := Some (x, y, player),
          moveHistory := moveHistory s4 @ [Placement x y player c],
          currentPlayer := getOpponent player\<rparr>)" and k: "k = koPoint s4"
    by simp_all
  show "moveHistory s' = moveHistory s @ [Placement x y player c]"
    by (simp add: s' saveBoardState_snapshot h4)
  show "boardHistory s' = boardHistory s @ [snapshotOf s']"
    by (simp add: s' saveBoardState_snapshot h4)
  show "sizeN s' = sizeN s"
    by (simp add: s' saveBoardState_snapshot h4)
  show "currentPlayer s' = getOpponent player"
    by (simp add: s' saveBoardState_snapshot)
  show "lastMove s' = Some (x, y, player)"
    by (simp add: s' saveBoardState_snapshot)
  show "koPoint s' = k"
    by (simp add: s' k saveBoardState_snapshot)
qed

lemma makeMove_failure:
  "snd (makeMove s x y player) = MoveFailed r \<Longrightarrow> fst (makeMove s x y player) = s"
proof -
  assume a: "snd (makeMove s x y player) = MoveFailed r"
  obtain v where v: "isValidMove s x y player = (s, v)"
    using isValidMove_frame [of s x y player] by (cases "isValidMove s x y player") simp
  show ?thesis
  proof (cases v)
    case (Valid cs)
    with a v show ?thesis
      by (simp add: makeMove_def Let_def split: prod.splits)
  next
    case (Invalid r')
    with v show ?thesis by (simp add: makeMove_def)
  qed
qed

lemma historyOk_init: "historyOk (init n)"
  by (simp add: historyOk_def init_def saveBoardState_def snapshotOf_def)

lemma historyOk_makeMove: "historyOk s \<Longrightarrow> historyOk (fst (makeMove s x y player))"
proof (cases "snd (makeMove s x y player)")
  case (MoveFailed r)
  assume "historyOk s"
  with makeMove_failure [OF MoveFailed] show ?thesis by simp
next
  case (MoveOk c k)
  then have "makeMove s x y player = (fst (makeMove s x y player), MoveOk c k)"
    by (metis prod.collapse)
  from makeMove_success(2) [OF this] show ?thesis
    by (simp add: historyOk_def)
qed

lemma historyOk_pass: "historyOk (fst (pass s))"
  by (simp add: historyOk_def pass_def Let_def saveBoardState_snapshot)

lemma snapshot_fields:
  "\<lparr>snap_board = snap_board p, snap_currentPlayer = snap_currentPlayer p,
    snap_capturedBlack = snap_capturedBlack p, snap_capturedWhite = snap_capturedWhite p,
    snap_koPoint = snap_koPoint p, snap_lastMove = snap_lastMove p\<rparr> = p"
  by simp

lemma historyOk_undoMove: "historyOk s \<Longrightarrow> historyOk (fst (undoMove s))"
proof (cases "length (boardHistory s) \<le> 1")
  case True
  assume "historyOk s"
  with True show ?thesis by (simp add: undoMove_def)
next
  case False
  then have "butlast (boardHistory s) \<noteq> []"
    by (cases "boardHistory s" rule: rev_cases) auto
  with False show ?thesis
    by (simp add: undoMove_def Let_def historyOk_def snapshotOf_def)
qed

lemma played_historyOk: "played s \<Longrightarrow> historyOk s"
proof (induction rule: played.induct)
  case (play_init n)
  show ?case by (rule historyOk_init)
next
  case (play_makeMove s x y player)
  then show ?case by (simp add: historyOk_makeMove)
next
  case (play_pass s)
  show ?case by (rule historyOk_pass)
next
  case (play_undoMove s)
  then show ?case by (simp add: historyOk_undoMove)
qed

lemma undo_after_makeMove:
  assumes h: "historyOk s" and m: "makeMove s x y player = (s', MoveOk c k)"
  shows "undoMove s' = (s, UndoOk)"
proof -
  note f = makeMove_success [OF m]
  from h have ne: "boardHistory s \<noteq> []" and l: "last (boardHistory s) = snapshotOf s"
    by (simp_all add: historyOk_def)
  have len: "\<not> length (boardHistory s') \<le> 1"
    using ne f(2) by (cases "boardHistory s") simp_all
  have "fst (undoMove s') = s"
    using len f l
    by (intro engine.equality) (simp_all add: undoMove_def Let_def snapshotOf_def)
  moreover have "snd (undoMove s') = UndoOk"
    using len by (simp add: undoMove_def Let_def)
  ultimately show ?thesis by (metis prod.collapse)
qed

lemma undo_restores_iff:
  assumes m: "makeMove s x y player = (s', MoveOk c k)"
  shows "(snd (undoMove s') = UndoOk
          \<and> board (fst (undoMove s')) = board s
          \<and> currentPlayer (fst (undoMove s')) = currentPlayer s
          \<and> capturedBlack (fst (undoMove s')) = capturedBlack s
          \<and> capturedWhite (fst (undoMove s')) = capturedWhite s
          \<and> koPoint (fst (undoMove s')) = koPoint s
          \<and> lastMove (fst (undoMove s')) = lastMove s) = historyOk s"
proof
  assume L: "snd (undoMove s') = UndoOk
          \<and> board (fst (undoMove s')) = board s
          \<and> currentPlayer (fst (undoMove s')) = currentPlayer s
          \<and> capturedBlack (fst (undoMove s')) = capturedBlack s
          \<and> capturedWhite (fst (undoMove s')) = capturedWhite s
          \<and> koPoint (fst (undoMove s')) = koPoint s
          \<and> lastMove (fst (undoMove s')) = lastMove s"
  note f = makeMove_success [OF m]
  have len: "\<not> length (boardHistory s') \<le> 1"
  proof
    assume "length (boardHistory s') \<le> 1"
    then have "snd (undoMove s') = UndoFailed NothingToUndo" by (simp add: undoMove_def)
    with L show False by simp
  qed
  with f(2) have ne: "boardHistory s \<noteq> []" by auto
  from len f(2) have r: "fst (undoMove s') =
      s'\<lparr>boardHistory := boardHistory s, moveHistory := butlast (moveHistory s'),
         board := snap_board (last (boardHistory s)),
         currentPlayer := snap_currentPlayer (last (boardHistory s)),
         capturedBlack := snap_capturedBlack (last (boardHistory s)),
         capturedWhite := snap_capturedWhite (last (boardHistory s)),
         koPoint := snap_koPoint (last (boardHistory s)),
         lastMove := snap_lastMove (last (boardHistory s))\<rparr>"
    by (simp add: undoMove_def Let_def)
  have "last (boardHistory s) = snapshotOf s"
    using L by (intro snapshot.equality) (simp_all add: r snapshotOf_def)
  with ne show "historyOk s" by (simp add: historyOk_def)
next
  assume "historyOk s"
  from undo_after_makeMove [OF this m] show "snd (undoMove s') = UndoOk
          \<and> board (fst (undoMove s')) = board s
          \<and> currentPlayer (fst (undoMove s')) = currentPlayer s
          \<and> capturedBlack (fst (undoMove s')) = capturedBlack s
          \<and> capturedWhite (fst (undoMove s')) = capturedWhite s
          \<and> koPoint (fst (undoMove s')) = koPoint s
          \<and> lastMove (fst (undoMove s')) = lastMove s"
    by simp
qed

lemma undo_refused_without_history:
  assumes "boardHistory s = []" and m: "makeMove s x y player = (s', MoveOk c k)"
  shows "undoMove s' = (s', UndoFailed NothingToUndo)"
  using assms(1) makeMove_success(2) [OF m] by (simp add: undoMove_def)

lemma played_playPlies: "played s \<Longrightarrow> played (playPlies s ps)"
proof (induction s ps rule: playPlies.induct)
  case (1 s)
  then show ?case by simp
next
  case (2 s x y ps)
  then show ?case by (simp add: play_makeMove)
next
  case (3 s ps)
  then show ?case by (simp add: play_pass)
qed

text \<open>
  Claim C5, as stated, fails on an engine that has been saved with getBoardState and
  loaded again, which the engine's own interface reaches: \<open>reloaded\<close> has the board of
  \<open>sharedGroup\<close> and an empty snapshot history. Black's move at (1,2) is legal there,
  but the undoMove after it is refused, and the board, the turn and the last-move
  marker stay those of after the move.
\<close>

theorem C5_counterexample:
  "board reloaded = board sharedGroup
   \<and> boardHistory reloaded = []
   \<and> snd (makeMove reloaded 1 2 BLACK) = MoveOk 0 None
   \<and> snd (undoMove (fst (makeMove reloaded 1 2 BLACK))) = UndoFailed NothingToUndo
   \<and> board (fst (undoMove (fst (makeMove reloaded 1 2 BLACK)))) \<noteq> board reloaded
   \<and> currentPlayer (fst (undoMove (fst (makeMove reloaded 1 2 BLACK)))) \<noteq> currentPlayer reloaded
   \<and> lastMove (fst (undoMove (fst (makeMove reloaded 1 2 BLACK)))) \<noteq> lastMove reloaded"
  by code_simp

text \<open>
  Claim C5, amended. For every engine and every legal move, makeMove followed by
  undoMove reports success and gives back the board grid, currentPlayer,
  capturedBlack, capturedWhite, koPoint and lastMove of before the move exactly when
  the snapshot history of before the move is not empty and its last entry is the
  snapshot of those fields; then the whole engine, both logs included, is the one of
  before the move. This holds of every engine reached from a fresh one by makeMove,
  pass and undoMove. It does not hold of an engine loaded from a getBoardState record;
  with an empty snapshot history the undoMove after the move is refused.
\<close>

theorem C5_undo_amended:
  assumes "makeMove s x y player = (s', MoveOk c k)"
  shows "((snd (undoMove s') = UndoOk
           \<and> board (fst (undoMove s')) = board s
           \<and> currentPlayer (fst (undoMove s')) = currentPlayer s
           \<and> capturedBlack (fst (undoMove s')) = capturedBlack s
           \<and> capturedWhite (fst (undoMove s')) = capturedWhite s
           \<and> koPoint (fst (undoMove s')) = koPoint s
           \<and> lastMove (fst (undoMove s')) = lastMove s) = historyOk s)
       \<and> (historyOk s \<longrightarrow> undoMove s' = (s, UndoOk))
       \<and> (played s \<longrightarrow> historyOk s)
       \<and> \<not> historyOk (loadState t (getBoardState u))
       \<and> (boardHistory s = [] \<longrightarrow> undoMove s' = (s', UndoFailed NothingToUndo))"
proof -
  note a = undo_restores_iff [OF assms]
  have b: "historyOk s \<longrightarrow> undoMove s' = (s, UndoOk)"
    using undo_after_makeMove [OF _ assms] by blast
  have c: "played s \<longrightarrow> historyOk s"
    using played_historyOk by blast
  have d: "\<not> historyOk (loadState t (getBoardState u))"
    by (simp add: loadState_getBoardState historyOk_def)
  have e: "boardHistory s = [] \<longrightarrow> undoMove s' = (s', UndoFailed NothingToUndo)"
    using undo_refused_without_history [OF _ assms] by blast
  from a b c d e show ?thesis by (intro conjI) assumption+
qed

theorem C5_witness:
  "played sharedGroup \<and> historyOk sharedGroup
   \<and> makeMove sharedGroup 1 1 BLACK = (fst (makeMove sharedGroup 1 1 BLACK), MoveOk 6 None)
   \<and> undoMove (fst (makeMove sharedGroup 1 1 BLACK)) = (sharedGroup, UndoOk)
   \<and> boardHistory reloaded = []
   \<and> makeMove reloaded 1 2 BLACK = (fst (makeMove reloaded 1 2 BLACK), MoveOk 0 None)
   \<and> undoMove (fst (makeMove reloaded 1 2 BLACK))
       = (fst (makeMove reloaded 1 2 BLACK), UndoFailed NothingToUndo)"
proof -
  have p: "played sharedGroup"
    unfolding sharedGroup_def by (rule played_playPlies) (rule play_init)
  have "snd (makeMove sharedGroup 1 1 BLACK) = MoveOk 6 None" by code_simp
  then have m: "makeMove sharedGroup 1 1 BLACK = (fst (makeMove sharedGroup 1 1 BLACK), MoveOk 6 None)"
    by (metis prod.collapse)
  have n: "boardHistory reloaded = []" by code_simp
  have "snd (makeMove reloaded 1 2 BLACK) = MoveOk 0 None" by code_simp
  then have m': "makeMove reloaded 1 2 BLACK = (fst (makeMove reloaded 1 2 BLACK), MoveOk 0 None)"
    by (metis prod.collapse)
  note t = C5_undo_amended [OF m] and t' = C5_undo_amended [OF m']
  from t p have h: "historyOk sharedGroup" by blast
  with t have u: "undoMove (fst (makeMove sharedGroup 1 1 BLACK)) = (sharedGroup, UndoOk)"
    by blast
  from t' n have u': "undoMove (fst (makeMove reloaded 1 2 BLACK))
       = (fst (makeMove reloaded 1 2 BLACK), UndoFailed NothingToUndo)"
    by blast
  from p h m u n m' u' show ?thesis by (intro conjI) assumption+
qed

subsection \<open>Scoring\<close>

lemma cells_of_allPoints:
  assumes "wf_grid n b"
  shows "map (cellAt b) (allPoints n) = concat b"
proof -
  from assms have len: "length b = n" and rows: "\<And>x. x < n \<Longrightarrow> length (b ! x) = n"
    by (simp_all add: wf_grid_def list_all_length)
  have inner: "map (\<lambda>y. b ! x ! y) [0 ..< n] = b ! x" if "x < n" for x
    using rows [OF that] map_nth [of "b ! x"] by simp
  have "map (cellAt b) (allPoints n) =
        concat (map (\<lambda>x. map (\<lambda>y. b ! x ! y) [0 ..< n]) [0 ..< n])"
    by (simp add: allPoints_def map_concat comp_def cellAt_def)
  also have "\<dots> = concat (map (\<lambda>x. b ! x) [0 ..< n])"
  proof -
    have "map (\<lambda>x. map (\<lambda>y. b ! x ! y) [0 ..< n]) [0 ..< n] = map (\<lambda>x. b ! x) [0 ..< n]"
      by (rule map_cong) (simp_all add: inner)
    then show ?thesis by (simp only:)
  qed
  also have "\<dots> = concat b"
    using len map_nth [of b] by simp
  finally show ?thesis .
qed

lemma countStones_fold:
  "fold (\<lambda>p (blackStones, whiteStones).
             if cellAt b p = BLACK then (blackStones + 1, whiteStones)
             else if cellAt b p = WHITE then (blackStones, whiteStones + 1)
             else (blackStones, whiteStones)) ps (k, l)
   = (k + length (filter (\<lambda>v. v = BLACK) (map (cellAt b) ps)),
      l + length (filter (\<lambda>v. v = WHITE) (map (cellAt b) ps)))"
  by (induction ps arbitrary: k l) simp_all

lemma countStones_stonesOn:
  "wf_engine s \<Longrightarrow> countStones s = (stonesOn BLACK (board s), stonesOn WHITE (board s))"
  by (simp add: countStones_def countStones_fold wf_engine_def cells_of_allPoints stonesOn_def)

lemma territory_skips_stones:
  "\<forall>p \<in> set ps. cellAt b p \<noteq> EMPTY \<Longrightarrow> fold (territoryStep n b) ps st = st"
  by (induction ps arbitrary: st) (simp_all add: territoryStep_def split: prod.splits)

lemma calculateTerritory_full:
  assumes "wf_engine s" "EMPTY \<notin> set (concat (board s))"
  shows "calculateTerritory s = \<lparr>terr_black = 0, terr_white = 0, terr_neutral = 0\<rparr>"
proof -
  have "set (map (cellAt (board s)) (allPoints (sizeN s))) = set (concat (board s))"
    using assms(1) by (simp add: wf_engine_def cells_of_allPoints)
  with assms(2) have "\<forall>p \<in> set (allPoints (sizeN s)). cellAt (board s) p \<noteq> EMPTY"
    by (metis image_eqI set_map)
  then show ?thesis
    by (simp add: calculateTerritory_def territory_skips_stones)
qed

lemma calculateScore_board_only:
  "sizeN t = sizeN s \<Longrightarrow> board t = board s \<Longrightarrow> calculateScore t = calculateScore s"
  by (simp add: calculateScore_def calculateTerritory_def countStones_def cong: if_cong)

lemma calculateScore_fields:
  "sc_blackStones (calculateScore s) = fst (countStones s)"
  "sc_whiteStones (calculateScore s) = snd (countStones s)"
  "sc_blackTerritory (calculateScore s) = terr_black (calculateTerritory s)"
  "sc_whiteTerritory (calculateScore s) = terr_white (calculateTerritory s)"
  "sc_black (calculateScore s) =
     of_nat (fst (countStones s) + terr_black (calculateTerritory s))"
  "sc_white (calculateScore s) =
     of_nat (snd (countStones s) + terr_white (calculateTerritory s)) + 15 / 2"
  "sc_winner (calculateScore s) =
     (if sc_black (calculateScore s) > sc_white (calculateScore s) then BLACK else WHITE)"
  "sc_margin (calculateScore s) = \<bar>sc_black (calculateScore s) - sc_white (calculateScore s)\<bar>"
  by (simp_all add: calculateScore_def Let_def split: prod.splits)

lemma half_integer_apart: "(of_nat n :: rat) \<noteq> of_nat m + 15 / 2"
proof
  assume "(of_nat n :: rat) = of_nat m + 15 / 2"
  then have "(of_nat (2 * n) :: rat) = of_nat (2 * m + 15)" by simp
  then have "2 * n = 2 * m + 15" using of_nat_eq_iff by blast
  then show False by presburger
qed

text \<open>
  Claim C7. On a well-formed grid without an empty point that holds N black and M white
  stones, calculateScore gives black N and white M + 7.5; the score depends on the
  size and the grid only, not on the history. In general black's score is its stones
  plus its territory, white's is its stones plus its territory plus 7.5, the winner is
  the side with the strictly greater score, and the margin is the absolute difference.
\<close>

theorem C7_score:
  assumes "wf_engine s"
  shows "(EMPTY \<notin> set (concat (board s)) \<longrightarrow>
            sc_black (calculateScore s) = of_nat (stonesOn BLACK (board s))
          \<and> sc_white (calculateScore s) = of_nat (stonesOn WHITE (board s)) + 15 / 2)
       \<and> (\<forall>t. sizeN t = sizeN s \<and> board t = board s \<longrightarrow> calculateScore t = calculateScore s)
       \<and> sc_black (calculateScore s)
           = of_nat (stonesOn BLACK (board s) + terr_black (calculateTerritory s))
       \<and> sc_white (calculateScore s)
           = of_nat (stonesOn WHITE (board s) + terr_white (calculateTerritory s)) + 15 / 2
       \<and> (sc_black (calculateScore s) > sc_white (calculateScore s) \<longrightarrow>
            sc_winner (calculateScore s) = BLACK)
       \<and> (sc_white (calculateScore s) > sc_black (calculateScore s) \<longrightarrow>
            sc_winner (calculateScore s) = WHITE)
       \<and> sc_margin (calculateScore s) = \<bar>sc_black (calculateScore s) - sc_white (calculateScore s)\<bar>"
proof -
  note cs = countStones_stonesOn [OF assms]
  have gen: "sc_black (calculateScore s)
           = of_nat (stonesOn BLACK (board s) + terr_black (calculateTerritory s))"
       "sc_white (calculateScore s)
           = of_nat (stonesOn WHITE (board s) + terr_white (calculateTerritory s)) + 15 / 2"
    by (simp_all add: calculateScore_fields(5,6) cs)
  have full: "EMPTY \<notin> set (concat (board s)) \<longrightarrow>
            sc_black (calculateScore s) = of_nat (stonesOn BLACK (board s))
          \<and> sc_white (calculateScore s) = of_nat (stonesOn WHITE (board s)) + 15 / 2"
    using gen by (simp add: calculateTerritory_full [OF assms])
  have indep: "\<forall>t. sizeN t = sizeN s \<and> board t = board s \<longrightarrow> calculateScore t = calculateScore s"
    using calculateScore_board_only by blast
  have win: "sc_black (calculateScore s) > sc_white (calculateScore s) \<longrightarrow>
            sc_winner (calculateScore s) = BLACK"
       "sc_white (calculateScore s) > sc_black (calculateScore s) \<longrightarrow>
            sc_winner (calculateScore s) = WHITE"
    by (simp_all add: calculateScore_fields(7))
  have m: "sc_margin (calculateScore s) = \<bar>sc_black (calculateScore s) - sc_white (calculateScore s)\<bar>"
    by (rule calculateScore_fields(8))
  from gen full indep win m show ?thesis by (intro conjI) assumption+
qed

theorem C7_witness:
  "wf_engine fullBoard \<and> EMPTY \<notin> set (concat (board fullBoard))
   \<and> stonesOn BLACK (board fullBoard) = 5 \<and> stonesOn WHITE (board fullBoard) = 4
   \<and> sc_black (calculateScore fullBoard) = 5
   \<and> sc_white (calculateScore fullBoard) = 4 + 15 / 2
   \<and> sc_winner (calculateScore fullBoard) = WHITE
   \<and> calculateScore (fst (pass fullBoard)) = calculateScore fullBoard"
proof -
  have wf: "wf_engine fullBoard" by code_simp
  have f: "EMPTY \<notin> set (concat (board fullBoard))" by code_simp
  have n: "stonesOn BLACK (board fullBoard) = 5" "stonesOn WHITE (board fullBoard) = 4"
    by code_simp+
  have t: "sizeN (fst (pass fullBoard)) = sizeN fullBoard \<and> board (fst (pass fullBoard)) = board fullBoard"
    by (simp add: pass_fields)
  from C7_score [OF wf] have
    sc: "sc_black (calculateScore fullBoard) = of_nat (stonesOn BLACK (board fullBoard))"
        "sc_white (calculateScore fullBoard) = of_nat (stonesOn WHITE (board fullBoard)) + 15 / 2"
    and w: "sc_white (calculateScore fullBoard) > sc_black (calculateScore fullBoard) \<longrightarrow>
            sc_winner (calculateScore fullBoard) = WHITE"
    and i: "calculateScore (fst (pass fullBoard)) = calculateScore fullBoard"
    using f t by blast+
  from sc n have v: "sc_black (calculateScore fullBoard) = 5" "sc_white (calculateScore fullBoard) = 4 + 15 / 2"
    by simp_all
  with w have "sc_winner (calculateScore fullBoard) = WHITE" by simp
  with wf f n v i show ?thesis by simp
qed

text \<open>
  Claim C10. For every engine, black's score is a whole number (black stones plus
  black territory) and white's is a whole number plus 7.5, so the two are never equal;
  the winner is BLACK exactly when black's score is greater and WHITE exactly when
  white's is.
\<close>

theorem C10_no_tie:
  "sc_black (calculateScore s)
     = of_nat (sc_blackStones (calculateScore s) + sc_blackTerritory (calculateScore s))
   \<and> sc_white (calculateScore s)
     = of_nat (sc_whiteStones (calculateScore s) + sc_whiteTerritory (calculateScore s)) + 15 / 2
   \<and> sc_black (calculateScore s) \<noteq> sc_white (calculateScore s)
   \<and> (sc_winner (calculateScore s) = BLACK) = (sc_black (calculateScore s) > sc_white (calculateScore s))
   \<and> (sc_winner (calculateScore s) = WHITE) = (sc_black (calculateScore s) < sc_white (calculateScore s))"
proof -
  have ne: "sc_black (calculateScore s) \<noteq> sc_white (calculateScore s)"
    by (simp only: calculateScore_fields(5,6) half_integer_apart not_False_eq_True)
  have w: "sc_winner (calculateScore s) =
     (if sc_black (calculateScore s) > sc_white (calculateScore s) then BLACK else WHITE)"
    by (rule calculateScore_fields(7))
  have b: "sc_black (calculateScore s)
     = of_nat (sc_blackStones (calculateScore s) + sc_blackTerritory (calculateScore s))"
    by (simp only: calculateScore_fields)
  have wh: "sc_white (calculateScore s)
     = of_nat (sc_whiteStones (calculateScore s) + sc_whiteTerritory (calculateScore s)) + 15 / 2"
    by (simp only: calculateScore_fields)
  from ne w have "(sc_winner (calculateScore s) = BLACK) = (sc_black (calculateScore s) > sc_white (calculateScore s))"
    "(sc_winner (calculateScore s) = WHITE) = (sc_black (calculateScore s) < sc_white (calculateScore s))"
    by auto
  with ne b wh show ?thesis by (intro conjI) assumption+
qed

subsection \<open>Captured stones are pushed once per triggering neighbour\<close>

text \<open>
  Claim C1 requires that a group reached from two neighbours of the placed stone is
  collected once and counted once. Evaluated on \<open>sharedGroup\<close> with black playing
  (1,1): getCapturedStones returns each of the three white stones twice, and makeMove
  reports 6 captured stones and raises capturedWhite from 0 to 6 while 3 white stones
  leave the board.
\<close>

theorem C1_double_count:
  "board sharedGroup = [[WHITE, WHITE, BLACK], [WHITE, EMPTY, EMPTY], [BLACK, EMPTY, BLACK]]
   \<and> getCapturedStones (placeStone sharedGroup 1 1 BLACK) 1 1 BLACK
       = [(0, 1), (0, 0), (1, 0), (1, 0), (0, 0), (0, 1)]
   \<and> \<not> distinct (getCapturedStones (placeStone sharedGroup 1 1 BLACK) 1 1 BLACK)
   \<and> snd (makeMove sharedGroup 1 1 BLACK) = MoveOk 6 None
   \<and> capturedWhite sharedGroup = 0
   \<and> capturedWhite (fst (makeMove sharedGroup 1 1 BLACK)) = 6
   \<and> stonesOn WHITE (board sharedGroup) = 3
   \<and> stonesOn WHITE (board (fst (makeMove sharedGroup 1 1 BLACK))) = 0"
  by code_simp

subsection \<open>The easy tier with a single, capturing move\<close>

lemma getAllValidMoves_fold_frame:
  "fst (fold (\<lambda>p (s', validMoves).
             case isValidMove s' (fst p) (snd p) player of
               (s'', Valid c) \<Rightarrow> (s'', validMoves @ [p])
             | (s'', Invalid r) \<Rightarrow> (s'', validMoves)) ps (s, acc)) = s"
proof (induction ps arbitrary: acc)
  case Nil
  show ?case by simp
next
  case (Cons p ps)
  obtain v where v: "isValidMove s (fst p) (snd p) player = (s, v)"
    using isValidMove_frame [of s "fst p" "snd p" player]
    by (cases "isValidMove s (fst p) (snd p) player") simp
  show ?case
    by (cases v) (simp_all add: v Cons.IH)
qed

lemma getAllValidMoves_frame: "fst (getAllValidMoves s player) = s"
  by (simp add: getAllValidMoves_def getAllValidMoves_fold_frame)

lemma findCaptureMoves_single:
  assumes "snd (isValidMove s (fst m) (snd m) color) = Valid captured" "captured \<noteq> []"
  shows "findCaptureMoves s [m] color = (s, [m])"
proof -
  have "isValidMove s (fst m) (snd m) color = (s, Valid captured)"
    using assms(1) isValidMove_frame [of s "fst m" "snd m" color]
    by (cases "isValidMove s (fst m) (snd m) color") simp
  then show ?thesis
    using assms(2) by (simp add: findCaptureMoves_def)
qed

lemma randomIndex_one: "0 \<le> r \<Longrightarrow> r < 1 \<Longrightarrow> randomIndex r (Suc 0) = 0"
  by (simp add: randomIndex_def)

text \<open>
  Claim C9. When getAllValidMoves finds exactly one move for the colour and isValidMove
  reports a non-empty capture list for it, getMove on the easy tier returns that move
  for every value \<open>Math.random()\<close> can return, and leaves the engine unchanged.
\<close>

theorem C9_easy_single_capture:
  assumes "snd (getAllValidMoves s color) = [m]"
    and "snd (isValidMove s (fst m) (snd m) color) = Valid captured"
    and "captured \<noteq> []"
    and "0 \<le> r" and "r < 1"
  shows "snd (getMove_easy s color r) = Some m \<and> fst (getMove_easy s color r) = s"
proof -
  have g: "getAllValidMoves s color = (s, [m])"
    using assms(1) getAllValidMoves_frame [of s color]
    by (cases "getAllValidMoves s color") simp
  have e: "getEasyMove s [m] color r = (s, m)"
    by (simp add: getEasyMove_def findCaptureMoves_single [OF assms(2,3)]
          randomIndex_one [OF assms(4,5)])
  show ?thesis
    by (simp add: getMove_easy_def g e)
qed

theorem C9_witness:
  "snd (getAllValidMoves lastEye WHITE) = [(1, 1)]
   \<and> snd (isValidMove lastEye 1 1 WHITE) = Valid [(0, 1), (0, 0), (1, 0), (1, 0), (0, 0), (0, 1)]
   \<and> snd (getMove_easy lastEye WHITE 0) = Some (1, 1)
   \<and> snd (getMove_easy lastEye WHITE (99 / 100)) = Some (1, 1)"
proof -
  have a: "snd (getAllValidMoves lastEye WHITE) = [(1, 1)]" by code_simp
  have b: "snd (isValidMove lastEye (fst (1, 1)) (snd (1, 1)) WHITE)
             = Valid [(0, 1), (0, 0), (1, 0), (1, 0), (0, 0), (0, 1)]"
    by code_simp
  have c: "[(0, 1), (0, 0), (1, 0), (1, 0), (0, 0), (0, 1)] \<noteq> ([] :: pos list)" by simp
  from C9_easy_single_capture [OF a b c, of 0]
       C9_easy_single_capture [OF a b c, of "99 / 100"] a b
  show ?thesis by simp
qed

subsection \<open>Ko\<close>

lemma onBoardSet_iff: "p \<in> onBoardSet n \<longleftrightarrow> isOnBoard n (fst p) (snd p)"
  by (cases p) (auto simp: onBoardSet_def isOnBoard_def)

lemma cellAt_setCell_same:
  assumes "wf_grid n b" "p \<in> onBoardSet n"
  shows "cellAt (setCell b p v) p = v"
proof -
  from assms have i: "nat (fst p) < length b"
    by (cases p) (auto simp: wf_grid_def onBoardSet_def)
  with assms have "length (b ! nat (fst p)) = n"
    by (simp add: wf_grid_def list_all_length)
  with assms have j: "nat (snd p) < length (b ! nat (fst p))"
    by (cases p) (auto simp: onBoardSet_def)
  show ?thesis using i j by (simp add: cellAt_def setCell_def)
qed

lemma cellAt_setCell_other:
  assumes "p \<in> onBoardSet n" "q \<in> onBoardSet n" "p \<noteq> q"
  shows "cellAt (setCell b p v) q = cellAt b q"
proof (cases "nat (fst p) = nat (fst q)")
  case True
  with assms have "nat (snd p) \<noteq> nat (snd q)"
    by (cases p; cases q) (auto simp: onBoardSet_def)
  with True show ?thesis
    by (cases "nat (fst p) < length b") (simp_all add: cellAt_def setCell_def list_update_beyond)
next
  case False
  then show ?thesis by (simp add: cellAt_def setCell_def)
qed

lemma wf_grid_setCell: "wf_grid n b \<Longrightarrow> wf_grid n (setCell b p v)"
proof (cases "nat (fst p) < length b")
  case True
  assume "wf_grid n b"
  with True show ?thesis
    by (auto simp: wf_grid_def setCell_def list_all_length nth_list_update)
next
  case False
  assume "wf_grid n b"
  with False show ?thesis
    by (simp add: setCell_def list_update_beyond)
qed

lemma wf_grid_clear: "wf_grid n b \<Longrightarrow> wf_grid n (fold (\<lambda>stone b. setCell b stone EMPTY) stones b)"
  by (induction stones arbitrary: b) (simp_all add: wf_grid_setCell)

text \<open>Liberties: the scan only adds empty neighbours, and adds every one of them.\<close>

lemma setAdd_set [simp]: "set (setAdd k ks) = insert k (set ks)"
  by (auto simp: setAdd_def)

lemma scanNeighbors_libs:
  "scanNeighbors b color nbs (libs, visited, queue) = (libs', visited', queue') \<Longrightarrow>
   set libs' = set libs \<union> {nb \<in> set nbs. cellAt b nb = EMPTY}"
proof (induction nbs arbitrary: libs visited queue)
  case Nil
  then show ?case by simp
next
  case (Cons nb nbs)
  show ?case
  proof (cases "cellAt b nb = EMPTY")
    case True
    with Cons.prems have
      "scanNeighbors b color nbs (setAdd nb libs, visited, queue) = (libs', visited', queue')"
      by simp
    from Cons.IH [OF this] True show ?thesis by auto
  next
    case False
    show ?thesis
    proof (cases "cellAt b nb = color \<and> nb \<notin> set visited")
      case True
      with False Cons.prems have
        "scanNeighbors b color nbs (libs, visited @ [nb], queue @ [nb]) = (libs', visited', queue')"
        by simp
      from Cons.IH [OF this] False show ?thesis by auto
    next
      case F2: False
      with False Cons.prems have
        "scanNeighbors b color nbs (libs, visited, queue) = (libs', visited', queue')"
        by (simp split: if_splits)
      from Cons.IH [OF this] False show ?thesis by auto
    qed
  qed
qed

lemma groupLoop_libs_empty:
  "\<forall>l \<in> set libs. l \<in> onBoardSet n \<and> cellAt b l = EMPTY \<Longrightarrow>
   \<forall>l \<in> set (snd (groupLoop n b color queue visited stones libs)).
      l \<in> onBoardSet n \<and> cellAt b l = EMPTY"
proof (induction n b color queue visited stones libs rule: groupLoop.induct)
  case (1 n b color visited stones libs)
  then show ?case by simp
next
  case (2 n b color current queue visited stones libs)
  obtain libs' visited' queue' where
    sc: "scanNeighbors b color (getNeighbors n current) (libs, visited, queue) = (libs', visited', queue')"
    by (metis prod_cases3)
  from scanNeighbors_libs [OF sc] "2.prems" getNeighbors_onBoard [of n current]
  have "\<forall>l \<in> set libs'. l \<in> onBoardSet n \<and> cellAt b l = EMPTY"
    by auto
  from "2.IH" [OF sc [symmetric] refl this] show ?case
    by (simp add: sc)
qed

lemma groupLoop_libs_mono:
  "set libs \<subseteq> set (snd (groupLoop n b color queue visited stones libs))"
proof (induction n b color queue visited stones libs rule: groupLoop.induct)
  case (1 n b color visited stones libs)
  then show ?case by simp
next
  case (2 n b color current queue visited stones libs)
  obtain libs' visited' queue' where
    sc: "scanNeighbors b color (getNeighbors n current) (libs, visited, queue) = (libs', visited', queue')"
    by (metis prod_cases3)
  from scanNeighbors_libs [OF sc] have "set libs \<subseteq> set libs'" by auto
  with "2.IH" [OF sc [symmetric] refl] show ?case
    by (auto simp: sc)
qed

lemma groupLoop_stones_order:
  "\<exists>rest. fst (groupLoop n b color queue visited stones libs) = stones @ queue @ rest"
proof (induction n b color queue visited stones libs rule: groupLoop.induct)
  case (1 n b color visited stones libs)
  then show ?case by simp
next
  case (2 n b color current queue visited stones libs)
  obtain libs' visited' queue' where
    sc: "scanNeighbors b color (getNeighbors n current) (libs, visited, queue) = (libs', visited', queue')"
    by (metis prod_cases3)
  from scanNeighbors_shape [OF sc] obtain new where new: "queue' = queue @ new" by blast
  from "2.IH" [OF sc [symmetric] refl] obtain rest where
    "fst (groupLoop n b color queue' visited' (stones @ [current]) libs')
       = (stones @ [current]) @ queue' @ rest"
    by blast
  then have "fst (groupLoop n b color (current # queue) visited stones libs)
       = stones @ (current # queue) @ (new @ rest)"
    by (simp add: sc new)
  then show ?case by blast
qed

lemma getGroup_libs:
  "l \<in> set (snd (getGroup t x y)) \<Longrightarrow> l \<in> onBoardSet (sizeN t) \<and> cellAt (board t) l = EMPTY"
proof -
  assume a: "l \<in> set (snd (getGroup t x y))"
  show ?thesis
  proof (cases "cellAt (board t) (x, y) = EMPTY")
    case True
    with a show ?thesis by (simp add: getGroup_def)
  next
    case False
    with a have "l \<in> set (snd (groupLoop (sizeN t) (board t) (cellAt (board t) (x, y))
                    [(x, y)] [(x, y)] [] []))"
      by (simp add: getGroup_def Let_def del: groupLoop.simps)
    with groupLoop_libs_empty [of "[]" "sizeN t" "board t"] show ?thesis
      by (simp del: groupLoop.simps)
  qed
qed

lemma getGroup_head:
  "cellAt (board t) (x, y) \<noteq> EMPTY \<Longrightarrow> \<exists>rest. fst (getGroup t x y) = (x, y) # rest"
  using groupLoop_stones_order [of "sizeN t" "board t" "cellAt (board t) (x, y)" "[(x, y)]" "[(x, y)]" "[]" "[]"]
  by (simp add: getGroup_def Let_def del: groupLoop.simps)

lemma getGroup_empty_neighbour:
  assumes "cellAt (board t) (x, y) \<noteq> EMPTY" "e \<in> set (getNeighbors (sizeN t) (x, y))"
    "cellAt (board t) e = EMPTY"
  shows "e \<in> set (snd (getGroup t x y))"
proof -
  let ?c = "cellAt (board t) (x, y)"
  obtain libs' visited' queue' where
    sc: "scanNeighbors (board t) ?c (getNeighbors (sizeN t) (x, y)) ([], [(x, y)], [])
           = (libs', visited', queue')"
    by (metis prod_cases3)
  from scanNeighbors_libs [OF sc] assms have "e \<in> set libs'" by simp
  with groupLoop_libs_mono [of libs' "sizeN t" "board t" ?c queue' visited' "[(x, y)]"]
  have "e \<in> set (snd (groupLoop (sizeN t) (board t) ?c queue' visited' [(x, y)] libs'))"
    by blast
  with assms(1) show ?thesis
    by (simp add: getGroup_def Let_def sc)
qed

lemma getGroup_board_only:
  "sizeN t = sizeN u \<Longrightarrow> board t = board u \<Longrightarrow> getGroup t x y = getGroup u x y"
  by (simp add: getGroup_def Let_def)

lemma getOpponent_not_EMPTY: "getOpponent p \<noteq> EMPTY"
  by (simp add: getOpponent_def)

lemma isValidMove_open:
  assumes "isOnBoard (sizeN s) x y" "cellAt (board s) (x, y) = EMPTY" "\<not> isKoPoint s x y"
  shows "snd (isValidMove s x y player) = captureOrSuicide s x y player"
  using assms
  by (simp add: isValidMove_def captureOrSuicide_def placeStone_def Let_def
        hasLibertyAfterMove_def)

lemma isValidMove_ko:
  assumes "isOnBoard (sizeN s) x y" "cellAt (board s) (x, y) = EMPTY" "koPoint s = Some (x, y)"
  shows "isValidMove s x y player = (s, Invalid KoViolation)"
  using assms by (simp add: isValidMove_def isKoPoint_def)

lemma isValidMove_Valid_checks:
  assumes "snd (isValidMove s x y player) = Valid cs"
  shows "isOnBoard (sizeN s) x y" "cellAt (board s) (x, y) = EMPTY" "\<not> isKoPoint s x y"
  using assms by (auto simp: isValidMove_def split: if_splits)

lemma removeGroup_board:
  "board (fst (removeGroup s stones)) = fold (\<lambda>stone b. setCell b stone EMPTY) stones (board s)"
  "snd (removeGroup s stones) = length stones"
  by (simp_all add: removeGroup_def Let_def)

text \<open>What a successful makeMove has checked and what it leaves on the board.\<close>

lemma makeMove_ok:
  assumes "makeMove s x y player = (s', MoveOk c k)"
  shows "isOnBoard (sizeN s) x y"
    and "cellAt (board s) (x, y) = EMPTY"
    and "\<not> isKoPoint s x y"
    and "c = length (getCapturedStones (placeStone s x y player) x y player)"
    and "board s' = fold (\<lambda>stone b. setCell b stone EMPTY)
                      (getCapturedStones (placeStone s x y player) x y player)
                      (setCell (board s) (x, y) player)"
    and "k = (if c = 1 \<and> length (fst (getGroup s' x y)) = 1 \<and> length (snd (getGroup s' x y)) = 1
              then Some (hd (snd (getGroup s' x y))) else None)"
proof -
  obtain v where v: "isValidMove s x y player = (s, v)"
    using isValidMove_frame [of s x y player] by (cases "isValidMove s x y player") simp
  from assms v obtain cs where cs: "v = Valid cs"
    by (cases v) (simp_all add: makeMove_def)
  from v cs have "snd (isValidMove s x y player) = Valid cs" by simp
  from isValidMove_Valid_checks [OF this]
  show "isOnBoard (sizeN s) x y" "cellAt (board s) (x, y) = EMPTY" "\<not> isKoPoint s x y" .
  define s1 where "s1 = s\<lparr>board := setCell (board s) (x, y) player\<rparr>"
  define captured where "captured = getCapturedStones s1 x y player"
  define rg where "rg = (if length captured > 0 then removeGroup s1 captured else (s1, 0))"
  define s3 where "s3 = (fst rg)\<lparr>koPoint := None\<rparr>"
  define s4 where "s4 = (if snd rg = 1 then
                       (let myGroup = getGroup s3 x y in
                        if length (fst myGroup) = 1 \<and> length (snd myGroup) = 1
                        then s3\<lparr>koPoint := Some (hd (snd myGroup))\<rparr>
                        else s3)
                     else s3)"
  have res: "makeMove s x y player =
     (saveBoardState (s4\<lparr>lastMove := Some (x, y, player),
          moveHistory := moveHistory s4 @ [Placement x y player (snd rg)],
          currentPlayer := getOpponent player\<rparr>),
      MoveOk (snd rg) (koPoint s4))"
    unfolding makeMove_def v cs s4_def s3_def rg_def captured_def s1_def
    by (simp add: Let_def saveBoardState_def split: prod.splits)
  from res assms have s': "s' = saveBoardState (s4\<lparr>lastMove := Some (x, y, player),
          moveHistory := moveHistory s4 @ [Placement x y player c],
          currentPlayer := getOpponent player\<rparr>)" and k: "k = koPoint s4" and c: "c = snd rg"
    by simp_all
  have s1: "s1 = placeStone s x y player"
    by (simp add: s1_def placeStone_def)
  have rgc: "snd rg = length captured"
    by (simp add: rg_def removeGroup_board)
  have rgb: "board (fst rg) = fold (\<lambda>stone b. setCell b stone EMPTY) captured (board s1)"
    by (cases "captured = []") (simp_all add: rg_def removeGroup_board)
  have rgs: "sizeN (fst rg) = sizeN s"
    by (simp add: rg_def removeGroup_histories s1_def)
  have b4: "board s4 = board (fst rg)" "sizeN s4 = sizeN (fst rg)"
    by (simp_all add: s4_def s3_def Let_def)
  have b': "board s' = board (fst rg)" "sizeN s' = sizeN (fst rg)"
    by (simp_all add: s' saveBoardState_def b4)
  show "c = length (getCapturedStones (placeStone s x y player) x y player)"
    using c rgc by (simp add: captured_def s1)
  show "board s' = fold (\<lambda>stone b. setCell b stone EMPTY)
                      (getCapturedStones (placeStone s x y player) x y player)
                      (setCell (board s) (x, y) player)"
    using b'(1) rgb by (simp add: captured_def s1 placeStone_def)
  have g: "getGroup s3 x y = getGroup s' x y"
    by (rule getGroup_board_only) (simp_all add: s3_def b')
  have "koPoint s4 = (if snd rg = 1 \<and> length (fst (getGroup s3 x y)) = 1
                          \<and> length (snd (getGroup s3 x y)) = 1
              then Some (hd (snd (getGroup s3 x y))) else None)"
    by (simp add: s4_def s3_def Let_def)
  then show "k = (if c = 1 \<and> length (fst (getGroup s' x y)) = 1 \<and> length (snd (getGroup s' x y)) = 1
              then Some (hd (snd (getGroup s' x y))) else None)"
    by (simp add: k c g)
qed

lemma makeMove_wf:
  assumes "wf_engine s" "makeMove s x y player = (s', MoveOk c k)"
  shows "wf_engine s'"
  using assms(1) makeMove_ok(5) [OF assms(2)] makeMove_success(3) [OF assms(2)]
  by (simp add: wf_engine_def wf_grid_clear wf_grid_setCell)

text \<open>getCapturedStones is the concatenation of the groups of the qualifying neighbours.\<close>

lemma getCapturedStones_fold:
  "fold (\<lambda>neighbor captured.
              if cellAt (board t) neighbor = opponent then
                (let group = getGroup t (fst neighbor) (snd neighbor) in
                 if length (snd group) = 0 then captured @ fst group else captured)
              else captured) nbs acc
   = acc @ concat (map (\<lambda>nb. if cellAt (board t) nb = opponent
                                  \<and> snd (getGroup t (fst nb) (snd nb)) = []
                               then fst (getGroup t (fst nb) (snd nb)) else []) nbs)"
  by (induction nbs arbitrary: acc) (simp_all add: Let_def)

lemma concat_single: "concat xss = [e] \<Longrightarrow> \<exists>xs \<in> set xss. xs = [e]"
  by (induction xss) (auto simp: append_eq_Cons_conv)

lemma getCapturedStones_single:
  assumes "length (getCapturedStones t x y player) = 1"
  shows "\<exists>nb \<in> set (getNeighbors (sizeN t) (x, y)).
           getCapturedStones t x y player = [nb] \<and> cellAt (board t) nb = getOpponent player"
proof -
  let ?G = "\<lambda>nb. if cellAt (board t) nb = getOpponent player
                                  \<and> snd (getGroup t (fst nb) (snd nb)) = []
                               then fst (getGroup t (fst nb) (snd nb)) else []"
  have eq: "getCapturedStones t x y player = concat (map ?G (getNeighbors (sizeN t) (x, y)))"
    by (simp add: getCapturedStones_def Let_def getCapturedStones_fold)
  from assms obtain e where e: "getCapturedStones t x y player = [e]"
    by (auto simp: length_Suc_conv)
  with eq have "concat (map ?G (getNeighbors (sizeN t) (x, y))) = [e]" by simp
  from concat_single [OF this] obtain nb where
    nb: "nb \<in> set (getNeighbors (sizeN t) (x, y))" and G: "?G nb = [e]"
    by auto
  from G have col: "cellAt (board t) nb = getOpponent player"
    and st: "fst (getGroup t (fst nb) (snd nb)) = [e]"
    by (auto split: if_splits)
  from col have "cellAt (board t) (fst nb, snd nb) \<noteq> EMPTY"
    by (simp add: getOpponent_not_EMPTY)
  from getGroup_head [OF this] st have "e = nb" by auto
  with nb e col show ?thesis by blast
qed

text \<open>
  A ko point made by a move is the cell of the single stone that move captured; that
  cell held a stone before the move, so it is not an empty point of before.
\<close>

lemma new_ko_was_occupied:
  assumes wf: "wf_engine t" and m: "makeMove t x y player = (t', MoveOk c (Some kp'))"
  shows "cellAt (board t) kp' \<noteq> EMPTY"
proof -
  note ok = makeMove_ok [OF m]
  note sz = makeMove_success(3) [OF m]
  let ?n = "sizeN t"
  let ?b1 = "setCell (board t) (x, y) player"
  from ok(6) have c1: "c = 1" and l1: "length (fst (getGroup t' x y)) = 1"
    and l2: "length (snd (getGroup t' x y)) = 1" and kp': "kp' = hd (snd (getGroup t' x y))"
    by (simp_all split: if_splits)
  from c1 ok(4) have "length (getCapturedStones (placeStone t x y player) x y player) = 1"
    by simp
  from getCapturedStones_single [OF this] obtain nb where
    nb: "nb \<in> set (getNeighbors ?n (x, y))"
    and cap: "getCapturedStones (placeStone t x y player) x y player = [nb]"
    and col: "cellAt ?b1 nb = getOpponent player"
    by (auto simp: placeStone_def)
  have nbB: "nb \<in> onBoardSet ?n" using nb getNeighbors_onBoard by blast
  have xyB: "(x, y) \<in> onBoardSet ?n" using ok(1) by (simp add: onBoardSet_iff)
  have wfb: "wf_grid ?n (board t)" using wf by (simp add: wf_engine_def)
  have "cellAt ?b1 (x, y) = player" by (rule cellAt_setCell_same [OF wfb xyB])
  with col have ne: "(x, y) \<noteq> nb" using getOpponent_neq [of player] by auto
  from cellAt_setCell_other [OF xyB nbB ne] col
  have old: "cellAt (board t) nb = getOpponent player" by simp
  have b': "board t' = setCell ?b1 nb EMPTY" using ok(5) cap by simp
  have wf1: "wf_grid ?n ?b1" by (rule wf_grid_setCell [OF wfb])
  have e: "cellAt (board t') nb = EMPTY"
    by (simp add: b' cellAt_setCell_same [OF wf1 nbB])
  have "cellAt (board t') (x, y) \<noteq> EMPTY"
  proof
    assume "cellAt (board t') (x, y) = EMPTY"
    then have "getGroup t' x y = ([], [])" by (simp add: getGroup_def)
    with l1 show False by simp
  qed
  from getGroup_empty_neighbour [OF this _ e] nb sz
  have "nb \<in> set (snd (getGroup t' x y))" by simp
  with l2 have "hd (snd (getGroup t' x y)) = nb"
    by (cases "snd (getGroup t' x y)") auto
  with kp' old show ?thesis by (simp add: getOpponent_not_EMPTY)
qed

lemma ko_point_empty:
  assumes m: "makeMove s x y player = (s', MoveOk c (Some kp))"
  shows "kp \<in> onBoardSet (sizeN s') \<and> cellAt (board s') kp = EMPTY"
proof -
  from makeMove_ok(6) [OF m] have l2: "length (snd (getGroup s' x y)) = 1"
    and kp: "kp = hd (snd (getGroup s' x y))"
    by (simp_all split: if_splits)
  then have "kp \<in> set (snd (getGroup s' x y))"
    by (cases "snd (getGroup s' x y)") auto
  from getGroup_libs [OF this] show ?thesis .
qed

text \<open>
  The capture list has length one exactly when it names one stone: a group is listed
  without repetition and starts with the neighbour it was found from.
\<close>

lemma getNeighbors_distinct: "distinct (getNeighbors n p)"
  by (simp add: getNeighbors_def)

lemma groupLoop_stones_distinct:
  "distinct (stones @ queue) \<Longrightarrow> set (stones @ queue) \<subseteq> set visited \<Longrightarrow>
   distinct (fst (groupLoop n b color queue visited stones libs))"
proof (induction n b color queue visited stones libs rule: groupLoop.induct)
  case (1 n b color visited stones libs)
  then show ?case by simp
next
  case (2 n b color current queue visited stones libs)
  obtain libs' visited' queue' where
    sc: "scanNeighbors b color (getNeighbors n current) (libs, visited, queue) = (libs', visited', queue')"
    by (metis prod_cases3)
  from scanNeighbors_shape [OF sc] obtain new where new:
    "visited' = visited @ new" "queue' = queue @ new" "distinct new"
    "set new \<inter> set visited = {}"
    by blast
  have d: "distinct ((stones @ [current]) @ queue')"
    using "2.prems" new by auto
  have s: "set ((stones @ [current]) @ queue') \<subseteq> set visited'"
    using "2.prems" new by auto
  from "2.IH" [OF sc [symmetric] refl d s] show ?case
    by (simp add: sc)
qed

lemma getGroup_distinct: "distinct (fst (getGroup t x y))"
  using groupLoop_stones_distinct [of "[]" "[(x, y)]" "[(x, y)]"]
  by (simp add: getGroup_def Let_def del: groupLoop.simps)

lemma concat_all_empty: "\<forall>x \<in> set xs. G x = [] \<Longrightarrow> concat (map G xs) = []"
  by (induction xs) simp_all

lemma concat_at_most_one:
  "distinct xs \<Longrightarrow> \<forall>x \<in> set xs. G x = [] \<or> (G x = [e] \<and> x = e) \<Longrightarrow>
   length (concat (map G xs)) \<le> 1"
proof (induction xs)
  case Nil
  then show ?case by simp
next
  case (Cons x xs)
  show ?case
  proof (cases "G x = []")
    case True
    with Cons show ?thesis by simp
  next
    case False
    with Cons.prems have x: "G x = [e]" "x = e" by auto
    with Cons.prems have "\<forall>z \<in> set xs. G z = []" by auto
    from concat_all_empty [OF this] x show ?thesis by simp
  qed
qed

lemma captured_one_stone:
  "(length (getCapturedStones t x y player) = 1)
     = (card (set (getCapturedStones t x y player)) = 1)"
proof
  assume "length (getCapturedStones t x y player) = 1"
  then obtain e where "getCapturedStones t x y player = [e]"
    by (auto simp: length_Suc_conv)
  then show "card (set (getCapturedStones t x y player)) = 1" by simp
next
  assume c: "card (set (getCapturedStones t x y player)) = 1"
  then obtain e where e: "set (getCapturedStones t x y player) = {e}"
    by (auto simp: card_1_singleton_iff)
  let ?G = "\<lambda>nb. if cellAt (board t) nb = getOpponent player
                                  \<and> snd (getGroup t (fst nb) (snd nb)) = []
                               then fst (getGroup t (fst nb) (snd nb)) else []"
  let ?nbs = "getNeighbors (sizeN t) (x, y)"
  have eq: "getCapturedStones t x y player = concat (map ?G ?nbs)"
    by (simp add: getCapturedStones_def Let_def getCapturedStones_fold)
  have each: "\<forall>nb \<in> set ?nbs. ?G nb = [] \<or> (?G nb = [e] \<and> nb = e)"
  proof
    fix nb assume nb: "nb \<in> set ?nbs"
    show "?G nb = [] \<or> (?G nb = [e] \<and> nb = e)"
    proof (cases "?G nb = []")
      case True
      then show ?thesis by simp
    next
      case False
      then have col: "cellAt (board t) (fst nb, snd nb) \<noteq> EMPTY"
        and G: "?G nb = fst (getGroup t (fst nb) (snd nb))"
        by (auto simp: getOpponent_not_EMPTY split: if_splits)
      from getGroup_head [OF col] obtain rest where
        r: "fst (getGroup t (fst nb) (snd nb)) = nb # rest" by auto
      have "set (?G nb) \<subseteq> {e}" using nb e eq by auto
      with G r have sub: "nb = e" "set rest \<subseteq> {e}" by auto
      from getGroup_distinct [of t "fst nb" "snd nb"] r sub have "rest = []"
        by (cases rest) auto
      with G r sub show ?thesis by simp
    qed
  qed
  from concat_at_most_one [OF getNeighbors_distinct each] eq
  have "length (getCapturedStones t x y player) \<le> 1" by simp
  moreover from e have "getCapturedStones t x y player \<noteq> []" by auto
  ultimately show "length (getCapturedStones t x y player) = 1"
    by (cases "getCapturedStones t x y player") auto
qed

lemma isKoPoint_iff: "isKoPoint s (fst kp) (snd kp) = (koPoint s = Some kp)"
  by (auto simp: isKoPoint_def prod_eq_iff split: option.splits)

text \<open>
  Claim C4, as stated, fails in its last part: a point that was the ko point, is still
  empty and is no longer the ko point need not be legal. From \<open>koShape\<close> white answers
  at (2,0); the ko point is cleared and (0,0) is empty, but black, whose turn it is,
  may not play there: the stone would join (0,1) and (1,0) in a group without a
  liberty and capture nothing, and isValidMove rejects it as suicide.
\<close>

theorem C4_counterexample:
  "wf_engine koBefore
   \<and> snd (makeMove koBefore 0 1 BLACK) = MoveOk 1 (Some (0, 0))
   \<and> koPoint koShape = Some (0, 0)
   \<and> snd (makeMove koShape 2 0 WHITE) = MoveOk 0 None
   \<and> koPoint (fst (makeMove koShape 2 0 WHITE)) = None
   \<and> cellAt (board (fst (makeMove koShape 2 0 WHITE))) (0, 0) = EMPTY
   \<and> currentPlayer (fst (makeMove koShape 2 0 WHITE)) = BLACK
   \<and> snd (isValidMove (fst (makeMove koShape 2 0 WHITE)) 0 0 BLACK) = Invalid Suicide"
  by code_simp

text \<open>
  Claim C4, amended. After a successful makeMove on a well-formed engine the ko point
  is set exactly when the move captured one stone (the count it reports is 1, which is
  the case exactly when its capture list names one stone) and the group of the placed
  stone is a single stone with one liberty. While it is set, isValidMove on it answers ko
  violation for either player and leaves the engine unchanged. A pass clears the ko
  point; a further successful makeMove derives it anew by the same rule, and never as
  the same point. After either, the former ko point, if still empty, is no longer
  refused for ko: isValidMove judges it by capture and suicide alone.
\<close>

theorem C4_ko_amended:
  assumes "wf_engine s" and "makeMove s x y player = (s', MoveOk c k)"
  shows "koPoint s' = k
    \<and> (k \<noteq> None) = (c = 1 \<and> length (fst (getGroup s' x y)) = 1
                       \<and> length (snd (getGroup s' x y)) = 1)
    \<and> (c = 1) = (card (set (getCapturedStones (placeStone s x y player) x y player)) = 1)
    \<and> (\<forall>kp pl. k = Some kp \<longrightarrow>
          isValidMove s' (fst kp) (snd kp) pl = (s', Invalid KoViolation))
    \<and> koPoint (fst (pass s')) = None
    \<and> (\<forall>kp pl. k = Some kp \<longrightarrow>
          snd (isValidMove (fst (pass s')) (fst kp) (snd kp) pl)
            = captureOrSuicide (fst (pass s')) (fst kp) (snd kp) pl)
    \<and> (\<forall>kp x2 y2 p2 s2 c2 k2 pl.
          k = Some kp \<and> makeMove s' x2 y2 p2 = (s2, MoveOk c2 k2) \<longrightarrow>
            koPoint s2 = k2 \<and> k2 \<noteq> Some kp
          \<and> (k2 \<noteq> None) = (c2 = 1 \<and> length (fst (getGroup s2 x2 y2)) = 1
                                \<and> length (snd (getGroup s2 x2 y2)) = 1)
          \<and> (cellAt (board s2) kp = EMPTY \<longrightarrow>
               snd (isValidMove s2 (fst kp) (snd kp) pl)
                 = captureOrSuicide s2 (fst kp) (snd kp) pl))"
proof -
  note m = assms(2)
  have wf': "wf_engine s'" by (rule makeMove_wf [OF assms])
  have A: "koPoint s' = k" by (rule makeMove_success(6) [OF m])
  have B: "(k \<noteq> None) = (c = 1 \<and> length (fst (getGroup s' x y)) = 1
                       \<and> length (snd (getGroup s' x y)) = 1)"
    using makeMove_ok(6) [OF m] by simp
  have B': "(c = 1) = (card (set (getCapturedStones (placeStone s x y player) x y player)) = 1)"
    using makeMove_ok(4) [OF m] captured_one_stone [of "placeStone s x y player" x y player]
    by simp
  have kp_ok: "isOnBoard (sizeN s') (fst kp) (snd kp) \<and> cellAt (board s') kp = EMPTY"
    if "k = Some kp" for kp
    using ko_point_empty [of s x y player s' c kp] m that by (simp add: onBoardSet_iff)
  have C: "\<forall>kp pl. k = Some kp \<longrightarrow>
          isValidMove s' (fst kp) (snd kp) pl = (s', Invalid KoViolation)"
  proof (intro allI impI)
    fix kp pl assume k: "k = Some kp"
    from kp_ok [OF k] A k show "isValidMove s' (fst kp) (snd kp) pl = (s', Invalid KoViolation)"
      by (intro isValidMove_ko) simp_all
  qed
  have D: "koPoint (fst (pass s')) = None" by (simp add: pass_fields)
  have E: "\<forall>kp pl. k = Some kp \<longrightarrow>
          snd (isValidMove (fst (pass s')) (fst kp) (snd kp) pl)
            = captureOrSuicide (fst (pass s')) (fst kp) (snd kp) pl"
  proof (intro allI impI)
    fix kp pl assume k: "k = Some kp"
    from kp_ok [OF k]
    show "snd (isValidMove (fst (pass s')) (fst kp) (snd kp) pl)
            = captureOrSuicide (fst (pass s')) (fst kp) (snd kp) pl"
      by (intro isValidMove_open) (simp_all add: pass_fields isKoPoint_iff)
  qed
  have F: "\<forall>kp x2 y2 p2 s2 c2 k2 pl.
          k = Some kp \<and> makeMove s' x2 y2 p2 = (s2, MoveOk c2 k2) \<longrightarrow>
            koPoint s2 = k2 \<and> k2 \<noteq> Some kp
          \<and> (k2 \<noteq> None) = (c2 = 1 \<and> length (fst (getGroup s2 x2 y2)) = 1
                                \<and> length (snd (getGroup s2 x2 y2)) = 1)
          \<and> (cellAt (board s2) kp = EMPTY \<longrightarrow>
               snd (isValidMove s2 (fst kp) (snd kp) pl)
                 = captureOrSuicide s2 (fst kp) (snd kp) pl)"
  proof (intro allI impI, elim conjE)
    fix kp x2 y2 p2 s2 c2 k2 pl
    assume k: "k = Some kp" and m2: "makeMove s' x2 y2 p2 = (s2, MoveOk c2 k2)"
    have F1: "koPoint s2 = k2" by (rule makeMove_success(6) [OF m2])
    have F2: "k2 \<noteq> Some kp"
    proof
      assume "k2 = Some kp"
      with m2 have "makeMove s' x2 y2 p2 = (s2, MoveOk c2 (Some kp))" by simp
      from new_ko_was_occupied [OF wf' this] kp_ok [OF k] show False by simp
    qed
    have F3: "(k2 \<noteq> None) = (c2 = 1 \<and> length (fst (getGroup s2 x2 y2)) = 1
                                \<and> length (snd (getGroup s2 x2 y2)) = 1)"
      using makeMove_ok(6) [OF m2] by simp
    have F4: "cellAt (board s2) kp = EMPTY \<longrightarrow>
               snd (isValidMove s2 (fst kp) (snd kp) pl)
                 = captureOrSuicide s2 (fst kp) (snd kp) pl"
    proof
      assume e: "cellAt (board s2) kp = EMPTY"
      from kp_ok [OF k] makeMove_success(3) [OF m2]
      have "isOnBoard (sizeN s2) (fst kp) (snd kp)" by simp
      moreover have "cellAt (board s2) (fst kp, snd kp) = EMPTY" using e by simp
      moreover have "\<not> isKoPoint s2 (fst kp) (snd kp)"
        using F1 F2 by (simp add: isKoPoint_iff)
      ultimately show "snd (isValidMove s2 (fst kp) (snd kp) pl)
                 = captureOrSuicide s2 (fst kp) (snd kp) pl"
        by (rule isValidMove_open)
    qed
    from F1 F2 F3 F4
    show "koPoint s2 = k2 \<and> k2 \<noteq> Some kp
          \<and> (k2 \<noteq> None) = (c2 = 1 \<and> length (fst (getGroup s2 x2 y2)) = 1
                                \<and> length (snd (getGroup s2 x2 y2)) = 1)
          \<and> (cellAt (board s2) kp = EMPTY \<longrightarrow>
               snd (isValidMove s2 (fst kp) (snd kp) pl)
                 = captureOrSuicide s2 (fst kp) (snd kp) pl)"
      by (intro conjI) assumption+
  qed
  from A B B' C D E F show ?thesis by (intro conjI) assumption+
qed

theorem C4_witness:
  "wf_engine koBefore
   \<and> makeMove koBefore 0 1 BLACK = (koShape, MoveOk 1 (Some (0, 0)))
   \<and> koPoint koShape = Some (0, 0)
   \<and> isValidMove koShape 0 0 WHITE = (koShape, Invalid KoViolation)
   \<and> isValidMove koShape 0 0 BLACK = (koShape, Invalid KoViolation)
   \<and> snd (isValidMove (fst (pass koShape)) 0 0 WHITE) = captureOrSuicide (fst (pass koShape)) 0 0 WHITE
   \<and> captureOrSuicide (fst (pass koShape)) 0 0 WHITE = Valid [(0, 1)]
   \<and> snd (isValidMove (fst (makeMove koShape 2 0 WHITE)) 0 0 WHITE) = Valid [(1, 0), (0, 1)]
   \<and> snd (isValidMove (fst (makeMove koShape 2 0 WHITE)) 0 0 BLACK) = Invalid Suicide"
proof -
  have wf: "wf_engine koBefore" by code_simp
  have "snd (makeMove koBefore 0 1 BLACK) = MoveOk 1 (Some (0, 0))" by code_simp
  then have m: "makeMove koBefore 0 1 BLACK = (koShape, MoveOk 1 (Some (0, 0)))"
    unfolding koShape_def by (metis prod.collapse)
  have "snd (makeMove koShape 2 0 WHITE) = MoveOk 0 None" by code_simp
  then have m2: "makeMove koShape 2 0 WHITE = (fst (makeMove koShape 2 0 WHITE), MoveOk 0 None)"
    by (metis prod.collapse)
  have e: "cellAt (board (fst (makeMove koShape 2 0 WHITE))) (0, 0) = EMPTY" by code_simp
  have v: "captureOrSuicide (fst (pass koShape)) 0 0 WHITE = Valid [(0, 1)]"
    "captureOrSuicide (fst (makeMove koShape 2 0 WHITE)) 0 0 WHITE = Valid [(1, 0), (0, 1)]"
    "captureOrSuicide (fst (makeMove koShape 2 0 WHITE)) 0 0 BLACK = Invalid Suicide"
    by code_simp+
  note t = C4_ko_amended [OF wf m]
  from t have a: "koPoint koShape = Some (0, 0)" by blast
  from t have b: "isValidMove koShape 0 0 pl = (koShape, Invalid KoViolation)" for pl
    by fastforce
  from t have c: "snd (isValidMove (fst (pass koShape)) 0 0 pl)
                    = captureOrSuicide (fst (pass koShape)) 0 0 pl" for pl
    by fastforce
  from t m2 e have d: "snd (isValidMove (fst (makeMove koShape 2 0 WHITE)) 0 0 pl)
                    = captureOrSuicide (fst (makeMove koShape 2 0 WHITE)) 0 0 pl" for pl
    by fastforce
  from wf m a b c d v show ?thesis by simp
qed

subsection \<open>Played engines are well formed\<close>

text \<open>
  The hypothesis \<open>wf_engine\<close> of the scoring and ko properties holds of every engine
  reached from a fresh one by makeMove, pass and undoMove.
\<close>

lemma historyWf_init: "historyWf (init n)"
  by (simp add: historyWf_def init_def saveBoardState_def wf_engine_def wf_grid_def
        list_all_length)

lemma historyWf_makeMove: "historyWf s \<Longrightarrow> historyWf (fst (makeMove s x y player))"
proof (cases "snd (makeMove s x y player)")
  case (MoveFailed r)
  assume "historyWf s"
  with makeMove_failure [OF MoveFailed] show ?thesis by simp
next
  case (MoveOk c k)
  assume h: "historyWf s"
  from MoveOk have m: "makeMove s x y player = (fst (makeMove s x y player), MoveOk c k)"
    by (metis prod.collapse)
  from h have "wf_engine s" by (simp add: historyWf_def)
  from makeMove_wf [OF this m] have w: "wf_engine (fst (makeMove s x y player))" .
  from h w makeMove_success(2,3) [OF m] show ?thesis
    by (simp add: historyWf_def wf_engine_def snapshotOf_def)
qed

lemma historyWf_pass: "historyWf s \<Longrightarrow> historyWf (fst (pass s))"
  by (simp add: historyWf_def pass_def Let_def saveBoardState_def wf_engine_def)

lemma historyWf_undoMove: "historyWf s \<Longrightarrow> historyWf (fst (undoMove s))"
proof (cases "length (boardHistory s) \<le> 1")
  case True
  assume "historyWf s"
  with True show ?thesis by (simp add: undoMove_def)
next
  case False
  assume h: "historyWf s"
  from False have ne: "butlast (boardHistory s) \<noteq> []"
    by (cases "boardHistory s" rule: rev_cases) auto
  then have "last (butlast (boardHistory s)) \<in> set (boardHistory s)"
    by (meson in_set_butlastD last_in_set)
  with h have l: "wf_grid (sizeN s) (snap_board (last (butlast (boardHistory s))))"
    by (simp add: historyWf_def list_all_iff)
  from h have "list_all (\<lambda>p. wf_grid (sizeN s) (snap_board p)) (butlast (boardHistory s))"
    by (auto simp: historyWf_def list_all_iff dest: in_set_butlastD)
  with False l show ?thesis
    by (simp add: undoMove_def Let_def historyWf_def wf_engine_def)
qed

lemma played_historyWf: "played s \<Longrightarrow> historyWf s"
proof (induction rule: played.induct)
  case (play_init n)
  show ?case by (rule historyWf_init)
next
  case (play_makeMove s x y player)
  then show ?case by (simp add: historyWf_makeMove)
next
  case (play_pass s)
  then show ?case by (simp add: historyWf_pass)
next
  case (play_undoMove s)
  then show ?case by (simp add: historyWf_undoMove)
qed

lemma played_wf: "played s \<Longrightarrow> wf_engine s"
  using played_historyWf by (simp add: historyWf_def)

subsection \<open>The ko point of a played engine is refused\<close>

text \<open>
  In every engine reached from a fresh one by makeMove, pass and undoMove, also after
  an undo, a set ko point is an empty point of the board, and isValidMove refuses it
  as a ko violation for any player.
\<close>

lemma historyKo_init: "historyKo (init n)"
  by (simp add: historyKo_def init_def saveBoardState_def koOpen_def)

lemma historyKo_makeMove: "historyKo s \<Longrightarrow> historyKo (fst (makeMove s x y player))"
proof (cases "snd (makeMove s x y player)")
  case (MoveFailed r)
  assume "historyKo s"
  with makeMove_failure [OF MoveFailed] show ?thesis by simp
next
  case (MoveOk c k)
  assume h: "historyKo s"
  let ?s' = "fst (makeMove s x y player)"
  from MoveOk have m: "makeMove s x y player = (?s', MoveOk c k)"
    by (metis prod.collapse)
  have "koOpen (sizeN ?s') (board ?s') k"
  proof (cases k)
    case None
    then show ?thesis by (simp add: koOpen_def)
  next
    case (Some kp)
    with m have "makeMove s x y player = (?s', MoveOk c (Some kp))" by simp
    from ko_point_empty [OF this] Some show ?thesis by (simp add: koOpen_def)
  qed
  with h makeMove_success(2,3,6) [OF m] show ?thesis
    by (simp add: historyKo_def snapshotOf_def)
qed

lemma pass_state:
  "fst (pass s) = saveBoardState (s\<lparr>moveHistory := moveHistory s @ [PassEntry (currentPlayer s)],
                                     currentPlayer := getOpponent (currentPlayer s),
                                     koPoint := None\<rparr>)"
  by (simp add: pass_def Let_def)

lemma historyKo_pass: "historyKo s \<Longrightarrow> historyKo (fst (pass s))"
  by (simp add: historyKo_def pass_state saveBoardState_def koOpen_def)

lemma historyKo_undoMove: "historyKo s \<Longrightarrow> historyKo (fst (undoMove s))"
proof (cases "length (boardHistory s) \<le> 1")
  case True
  assume "historyKo s"
  with True show ?thesis by (simp add: undoMove_def)
next
  case False
  assume h: "historyKo s"
  let ?p = "last (butlast (boardHistory s))"
  from False have ne: "butlast (boardHistory s) \<noteq> []"
    by (cases "boardHistory s" rule: rev_cases) auto
  then have "?p \<in> set (boardHistory s)"
    by (meson in_set_butlastD last_in_set)
  with h have l: "koOpen (sizeN s) (snap_board ?p) (snap_koPoint ?p)"
    by (simp add: historyKo_def list_all_iff)
  from h have "list_all (\<lambda>p. koOpen (sizeN s) (snap_board p) (snap_koPoint p))
                 (butlast (boardHistory s))"
    by (auto simp: historyKo_def list_all_iff dest: in_set_butlastD)
  with False l show ?thesis
    by (simp add: undoMove_def Let_def historyKo_def)
qed

lemma played_historyKo: "played s \<Longrightarrow> historyKo s"
proof (induction rule: played.induct)
  case (play_init n)
  show ?case by (rule historyKo_init)
next
  case (play_makeMove s x y player)
  then show ?case by (simp add: historyKo_makeMove)
next
  case (play_pass s)
  then show ?case by (simp add: historyKo_pass)
next
  case (play_undoMove s)
  then show ?case by (simp add: historyKo_undoMove)
qed

lemma played_ko_refused:
  assumes "played s" "koPoint s = Some kp"
  shows "isValidMove s (fst kp) (snd kp) player = (s, Invalid KoViolation)"
proof -
  from played_historyKo [OF assms(1)] assms(2)
  have "kp \<in> onBoardSet (sizeN s)" "cellAt (board s) kp = EMPTY"
    by (simp_all add: historyKo_def koOpen_def)
  with assms(2) show ?thesis
    by (intro isValidMove_ko) (simp_all add: onBoardSet_iff)
qed

end
